theory Spec2Isabelle
  imports Main
begin

section \<open>JavaScript values of the style descriptions\<close>

text \<open>
  The values that travel through \<open>packages/react/index.ts\<close>: style tokens (strings, numbers,
  \<open>null\<close>, \<open>undefined\<close>, booleans) and plain objects. An object is the list of its own
  enumerable properties in \<open>for ... in\<close> order; a JavaScript object has each key once.
  Numbers are the integers (the tokens of a spacing scale), printed in decimal as
  JavaScript prints an integer of ordinary size; fractions, \<open>NaN\<close>, arrays and functions
  are left out. Property reads see own properties only: keys inherited from
  \<open>Object.prototype\<close> (\<open>toString\<close>, \<open>constructor\<close>, ...) are not CSS property names and
  are outside the typed inputs \<open>PomPomStyle\<close> admits.
\<close>

datatype jsval =
    JUndefined
  | JNull
  | JBool bool
  | JNum int
  | JStr string
  | JObj "(string \<times> jsval) list"

type_synonym obj = "(string \<times> jsval) list"

text \<open>Decimal digits of a number, as string concatenation and template literals print them.\<close>

definition digit :: "nat \<Rightarrow> char" where
  "digit d = ''0123456789'' ! d"

function string_of_nat :: "nat \<Rightarrow> string" where
  "string_of_nat n = (if n < 10 then [digit n] else string_of_nat (n div 10) @ [digit (n mod 10)])"
  by pat_completeness auto
termination
  by (relation "measure (\<lambda>n. n)") auto

declare string_of_nat.simps [simp del]

definition string_of_int :: "int \<Rightarrow> string" where
  "string_of_int i = (if i < 0 then CHR ''-'' # string_of_nat (nat (- i)) else string_of_nat (nat i))"

text \<open>\<open>ToString\<close>, applied by a template literal to each interpolated value.\<close>

fun toString :: "jsval \<Rightarrow> string" where
  "toString JUndefined = ''undefined''"
| "toString JNull = ''null''"
| "toString (JBool b) = (if b then ''true'' else ''false'')"
| "toString (JNum n) = string_of_int n"
| "toString (JStr s) = s"
| "toString (JObj kvs) = ''[object Object]''"

text \<open>\<open>ToBoolean\<close>, applied by \<open>if (x)\<close>, \<open>!x\<close> and \<open>x || y\<close>.\<close>

fun truthy :: "jsval \<Rightarrow> bool" where
  "truthy JUndefined = False"
| "truthy JNull = False"
| "truthy (JBool b) = b"
| "truthy (JNum n) = (n \<noteq> 0)"
| "truthy (JStr s) = (s \<noteq> [])"
| "truthy (JObj kvs) = True"

text \<open>\<open>o[k]\<close>: the property, or \<open>undefined\<close> when the object has none of that name.\<close>

definition getProp :: "obj \<Rightarrow> string \<Rightarrow> jsval" where
  "getProp ob k = (case map_of ob k of None \<Rightarrow> JUndefined | Some v \<Rightarrow> v)"

text \<open>
  \<open>o[k] = v\<close>: an existing property keeps its place, a new one goes last. (JavaScript
  enumerates keys that are array indices first; CSS property names are not such keys.
  Nor is \<open>__proto__\<close>, whose assignment runs the setter of \<open>Object.prototype\<close> and makes
  no property: that key is not covered here.)
\<close>

fun setProp :: "obj \<Rightarrow> string \<Rightarrow> jsval \<Rightarrow> obj" where
  "setProp [] k v = [(k, v)]"
| "setProp ((k', v') # ps) k v = (if k' = k then (k, v) # ps else (k', v') # setProp ps k v)"

section \<open>Internal functions\<close>

text \<open>\<open>selector.replace('&', '*')\<close> with a string pattern: the first occurrence only.\<close>

fun replace :: "string \<Rightarrow> char \<Rightarrow> string \<Rightarrow> string" where
  "replace [] c r = []"
| "replace (x # xs) c r = (if x = c then r @ xs else x # replace xs c r)"

definition getSelectorStylesheet :: "string \<Rightarrow> string \<Rightarrow> string" where
  "getSelectorStylesheet selector ident =
     (let s = replace selector (CHR ''&'') ''*''
      in ''*{--'' @ ident @ ''-0:initial;--'' @ ident @ ''-1: ;} '' @ s @
         ''{--'' @ ident @ ''-0: ;--'' @ ident @ ''-1:initial;}'')"

definition getBlockStylesheet :: "string \<Rightarrow> string \<Rightarrow> string" where
  "getBlockStylesheet block ident =
     ''*{--'' @ ident @ ''-0:initial;--'' @ ident @ ''-1: ;} '' @ block @
     ''{*{--'' @ ident @ ''-0: ;--'' @ ident @ ''-1:initial;}}''"

definition getPropertyValue :: "string \<Rightarrow> jsval \<Rightarrow> jsval \<Rightarrow> string" where
  "getPropertyValue varId on off =
     ''var(--'' @ varId @ ''-1,'' @ toString on @ '') var(--'' @ varId @ ''-0,'' @
     (if truthy off then toString off else ''revert-layer'') @ '')''"

text \<open>\<open>conditionIdMap\<close>, the module-level \<open>Map\<close> from condition name to variable id.\<close>

type_synonym registry = "string \<rightharpoonup> string"

section \<open>The style resolver\<close>

text \<open>
  A shorthand property of \<open>options.properties\<close> is a function from the token to the object
  of CSS declarations it stands for.
\<close>

type_synonym expander = "jsval \<Rightarrow> obj"

type_synonym properties = "(string \<rightharpoonup> expander) option"

text \<open>What \<open>console.warn\<close> and \<open>console.log\<close> were called with, in call order.\<close>

datatype console = ConsoleWarn string | ConsoleLog string jsval

text \<open>An entry of \<open>conditionsToProcess\<close>: \<open>{ name, id, value }\<close>.\<close>

record cond =
  cname :: string
  cid :: string
  cvalue :: obj

text \<open>
  \<open>properties && properties[key]\<close>, read on the own properties of \<open>properties\<close>: a key that
  names a member of \<open>Object.prototype\<close> (\<open>constructor\<close>, \<open>valueOf\<close>, ...), which the
  JavaScript finds by inheritance and calls, is not covered here. Then
  \<open>for (const k in returnVal) pStyles[k] = returnVal[k]\<close>: a \<open>for ... in\<close> loop that reads
  \<open>o[k]\<close> visits each property with its value.
\<close>

definition lookupFn :: "properties \<Rightarrow> string \<Rightarrow> expander option" where
  "lookupFn props key = (case props of None \<Rightarrow> None | Some p \<Rightarrow> p key)"

fun assignAll :: "obj \<Rightarrow> obj \<Rightarrow> obj" where
  "assignAll pStyles [] = pStyles"
| "assignAll pStyles ((k, v) # returnVal) = assignAll (setProp pStyles k v) returnVal"

text \<open>
  One round of \<open>for (const _key in _styles)\<close>. \<open>if (id)\<close> tests the string read from the
  map, so an absent key and an empty id both take the property branch;
  \<open>typeof value === 'object' && value !== null\<close> holds of objects only.
\<close>

fun keyStep :: "properties \<Rightarrow> registry \<Rightarrow> obj \<times> cond list \<times> console list \<Rightarrow> string \<times> jsval
    \<Rightarrow> obj \<times> cond list \<times> console list" where
  "keyStep props reg (pStyles, conditionsToProcess, out) (key, v) =
     (case (case reg key of None \<Rightarrow> None | Some i \<Rightarrow> if i = [] then None else Some i) of
        Some i \<Rightarrow>
          (case v of
             JObj ob \<Rightarrow>
               (pStyles, conditionsToProcess @ [\<lparr>cname = key, cid = i, cvalue = ob\<rparr>], out)
           | _ \<Rightarrow>
               (pStyles, conditionsToProcess,
                out @ [ConsoleWarn (key @ '' is defined as a condition and it must be passed on object''),
                       ConsoleLog ''Expected object, but received:'' v]))
      | None \<Rightarrow>
          (case lookupFn props key of
             Some fn \<Rightarrow> (assignAll pStyles (fn v), conditionsToProcess, out)
           | None \<Rightarrow> (setProp pStyles key v, conditionsToProcess, out)))"

fun baseLoop :: "properties \<Rightarrow> registry \<Rightarrow> obj \<times> cond list \<times> console list \<Rightarrow> obj
    \<Rightarrow> obj \<times> cond list \<times> console list" where
  "baseLoop props reg acc [] = acc"
| "baseLoop props reg acc (kv # rest) = baseLoop props reg (keyStep props reg acc kv) rest"

text \<open>
  The body of \<open>conditionsToProcess.forEach\<close> after the recursive call: every property of
  the child's result is folded into the parent's map through \<open>getPropertyValue\<close>.
\<close>

fun applyCondition :: "string \<Rightarrow> obj \<Rightarrow> obj \<Rightarrow> obj" where
  "applyCondition i pStyles [] = pStyles"
| "applyCondition i pStyles ((k, v) # processedValue) =
     applyCondition i (setProp pStyles k (JStr (getPropertyValue i v (getProp pStyles k)))) processedValue"

text \<open>
  \<open>processStyles\<close>: the key loop, then \<open>conditionsToProcess.forEach\<close>, whose callback calls
  \<open>processStyles\<close> on the nested node. The result is the map \<open>pStyles\<close> together with
  the console calls made on the way. The recursion descends into nested objects, so the
  measure is the size of the node.
\<close>

definition nodeSize :: "obj \<Rightarrow> nat" where
  "nodeSize n = size (JObj n)"

definition worklistSize :: "cond list \<Rightarrow> nat" where
  "worklistSize cs = sum_list (map (\<lambda>c. nodeSize (cvalue c)) cs)"

function processStyles :: "properties \<Rightarrow> registry \<Rightarrow> obj \<Rightarrow> obj \<times> console list"
  and forEachCondition ::
    "properties \<Rightarrow> registry \<Rightarrow> cond list \<Rightarrow> obj \<times> console list \<Rightarrow> obj \<times> console list"
where
  "processStyles props reg styles =
     (case baseLoop props reg ([], [], []) styles of
        (pStyles, conditionsToProcess, out) \<Rightarrow>
          forEachCondition props reg conditionsToProcess (pStyles, out))"
| "forEachCondition props reg [] acc = acc"
| "forEachCondition props reg (c # cs) (pStyles, out) =
     (case processStyles props reg (cvalue c) of
        (processedValue, out') \<Rightarrow>
          forEachCondition props reg cs (applyCondition (cid c) pStyles processedValue, out @ out'))"
  by pat_completeness auto
termination
proof -
  have step: "worklistSize (fst (snd (keyStep props reg (ps, cs, out) (k, v)))) \<le> worklistSize cs + size v"
    for props reg ps cs out k v
    by (cases v) (auto simp: worklistSize_def nodeSize_def split: option.splits)
  have loop: "worklistSize (fst (snd (baseLoop props reg (ps, cs, out) n))) + 1 \<le> worklistSize cs + nodeSize n"
    for props reg ps cs out n
  proof (induction n arbitrary: ps cs out)
    case Nil
    then show ?case by (simp add: nodeSize_def)
  next
    case (Cons kv rest)
    obtain k v where kv: "kv = (k, v)" by (cases kv)
    obtain ps' cs' out' where st: "keyStep props reg (ps, cs, out) (k, v) = (ps', cs', out')"
      by (cases "keyStep props reg (ps, cs, out) (k, v)")
    have "worklistSize cs' \<le> worklistSize cs + size v"
      using step [of props reg ps cs out k v] st by simp
    moreover have "worklistSize (fst (snd (baseLoop props reg (ps', cs', out') rest))) + 1
        \<le> worklistSize cs' + nodeSize rest"
      by (rule Cons.IH)
    ultimately show ?case
      using kv st by (simp add: nodeSize_def)
  qed
  show ?thesis
  proof (relation "measure (\<lambda>x. case x of
            Inl (p, r, n) \<Rightarrow> 2 * nodeSize n
          | Inr (p, r, cs, a) \<Rightarrow> 2 * worklistSize cs + 1)", goal_cases)
    case 1
    show ?case by simp
  next
    case (2 props reg styles pStyles rest conditionsToProcess out)
    have "worklistSize (fst (snd (baseLoop props reg ([], [], []) styles))) + 1
        \<le> worklistSize [] + nodeSize styles"
      by (rule loop)
    moreover have "fst (snd (baseLoop props reg ([], [], []) styles)) = conditionsToProcess"
      using 2 by (metis fst_conv snd_conv)
    ultimately show ?case by (simp add: worklistSize_def)
  next
    case 3
    show ?case by (simp add: worklistSize_def)
  next
    case 4
    show ?case by (simp add: worklistSize_def nodeSize_def)
  qed
qed

declare processStyles.simps [simp del]

section \<open>defineConfig\<close>

record config_options =
  conditions :: "(string \<times> string) list option"
  properties :: properties
  cssVariablePrefix :: "string option"

text \<open>
  The returned object. \<open>style\<close> is a closure over \<open>properties\<close> that reads the module-level
  \<open>conditionIdMap\<close> whenever it is called, so it takes the map of that moment.
\<close>

record config =
  stylesheet :: string
  style :: "registry \<Rightarrow> obj \<Rightarrow> obj \<times> console list"

text \<open>\<open>getId\<close> increments the call's own \<open>idx\<close> and writes the module-level map.\<close>

definition getId :: "string \<Rightarrow> string \<Rightarrow> nat \<times> registry \<Rightarrow> string \<times> nat \<times> registry" where
  "getId cssVarPrefix name st =
     (case st of (idx, conditionIdMap) \<Rightarrow>
        (let idx' = idx + 1; ident = cssVarPrefix @ string_of_nat idx'
         in (ident, idx', conditionIdMap(name \<mapsto> ident))))"

definition startsWith :: "string \<Rightarrow> char \<Rightarrow> bool" where
  "startsWith s c = (case s of [] \<Rightarrow> False | x # _ \<Rightarrow> x = c)"

text \<open>\<open>for (const name in conditions)\<close>; \<open>!value\<close> holds of the empty string.\<close>

fun conditionsLoop :: "string \<Rightarrow> string list \<times> nat \<times> registry \<Rightarrow> (string \<times> string) list
    \<Rightarrow> string list \<times> nat \<times> registry" where
  "conditionsLoop cssVarPrefix st [] = st"
| "conditionsLoop cssVarPrefix (sheet, st) ((name, v) # rest) =
     (if v = [] then conditionsLoop cssVarPrefix (sheet, st) rest
      else if startsWith v (CHR ''@'') then
        (case getId cssVarPrefix name st of
           (ident, st') \<Rightarrow> conditionsLoop cssVarPrefix (sheet @ [getBlockStylesheet v ident], st') rest)
      else
        (case getId cssVarPrefix name st of
           (ident, st') \<Rightarrow> conditionsLoop cssVarPrefix (sheet @ [getSelectorStylesheet v ident], st') rest))"

text \<open>\<open>stylesheet.join('\n')\<close>.\<close>

fun join :: "string list \<Rightarrow> string \<Rightarrow> string" where
  "join [] sep = []"
| "join [x] sep = x"
| "join (x # y # ys) sep = x @ sep @ join (y # ys) sep"

definition cssVarPrefixOf :: "config_options \<Rightarrow> string" where
  "cssVarPrefixOf options =
     (case cssVariablePrefix options of
        None \<Rightarrow> ''p''
      | Some p \<Rightarrow> if p = [] then ''p'' else p)"

definition defineConfig :: "config_options \<Rightarrow> registry \<Rightarrow> config \<times> registry" where
  "defineConfig options conditionIdMap =
     (let cssVarPrefix = cssVarPrefixOf options;
          (sheet, idx, conditionIdMap') =
            (case conditions options of
               None \<Rightarrow> ([], 0, conditionIdMap)
             | Some cs \<Rightarrow> conditionsLoop cssVarPrefix ([], 0, conditionIdMap) cs)
      in (\<lparr>stylesheet = join sheet [CHR 0x0A],
           style = (\<lambda>reg styles. processStyles (properties options) reg styles)\<rparr>,
          conditionIdMap'))"

section \<open>Notions used to state the properties\<close>

text \<open>
  The conditions a call registers are those with a non-empty text; \<open>getId\<close> hands them
  the ids \<open>prefix 1\<close>, \<open>prefix 2\<close>, ... counted from the call's own \<open>idx\<close>; each one
  contributes the rule set of its kind to the stylesheet.
\<close>

definition registered :: "(string \<times> string) list \<Rightarrow> (string \<times> string) list" where
  "registered cs = filter (\<lambda>(name, v). v \<noteq> []) cs"

definition freshIds :: "string \<Rightarrow> nat \<Rightarrow> nat \<Rightarrow> string list" where
  "freshIds cssVarPrefix idx n = map (\<lambda>k. cssVarPrefix @ string_of_nat k) [Suc idx ..< Suc idx + n]"

definition ruleSet :: "string \<Rightarrow> string \<Rightarrow> string" where
  "ruleSet v ident =
     (if startsWith v (CHR ''@'') then getBlockStylesheet v ident else getSelectorStylesheet v ident)"

definition conditionList :: "config_options \<Rightarrow> (string \<times> string) list" where
  "conditionList options = (case conditions options of None \<Rightarrow> [] | Some cs \<Rightarrow> cs)"

text \<open>
  The configuration of the README and of the end-to-end scenario: one condition
  \<open>hover: "&:hover"\<close> and one shorthand \<open>p: (v) => ({ padding: v * 4 + "px" })\<close>, whose
  parameter type admits numbers only.
\<close>

definition paddingExpander :: expander where
  "paddingExpander v =
     (case v of JNum n \<Rightarrow> [(''padding'', JStr (string_of_int (n * 4) @ ''px''))] | _ \<Rightarrow> [])"

definition hoverOptions :: config_options where
  "hoverOptions =
     \<lparr>conditions = Some [(''hover'', ''&:hover'')],
      properties = Some [''p'' \<mapsto> paddingExpander],
      cssVariablePrefix = None\<rparr>"

text \<open>
  The README's three conditions, and two further configurations made later in the same
  process: one that registers a new name, one that registers \<open>hover\<close> again.
\<close>

definition readmeOptions :: config_options where
  "readmeOptions =
     \<lparr>conditions = Some [(''hover'', ''&:hover''), (''md'', ''@media (min-width: 768px)''),
                         (''dark'', ''.dark &'')],
      properties = Some [''p'' \<mapsto> paddingExpander],
      cssVariablePrefix = None\<rparr>"

definition focusOptions :: config_options where
  "focusOptions =
     \<lparr>conditions = Some [(''focus'', ''&:focus'')],
      properties = None,
      cssVariablePrefix = None\<rparr>"

definition laterOptions :: config_options where
  "laterOptions =
     \<lparr>conditions = Some [(''focus'', ''&:focus''), (''hover'', ''.hoverable &'')],
      properties = None,
      cssVariablePrefix = None\<rparr>"

text \<open>A condition whose selector names the styled element twice.\<close>

definition groupedOptions :: config_options where
  "groupedOptions =
     \<lparr>conditions = Some [(''active'', ''&:hover, &:focus'')],
      properties = None,
      cssVariablePrefix = None\<rparr>"

section \<open>Decimal printing is injective\<close>

lemma digit_inj: "d < 10 \<Longrightarrow> e < 10 \<Longrightarrow> digit d = digit e \<Longrightarrow> d = e"
proof -
  assume d: "d < 10" and e: "e < 10" and eq: "digit d = digit e"
  have "distinct ''0123456789''" by simp
  moreover have "length ''0123456789'' = 10" by simp
  ultimately show "d = e"
    using d e eq unfolding digit_def by (metis nth_eq_iff_index_eq)
qed

lemma string_of_nat_nonempty: "string_of_nat n \<noteq> []"
  by (subst string_of_nat.simps) simp

lemma string_of_nat_inj: "string_of_nat n = string_of_nat m \<Longrightarrow> n = m"
proof (induction n arbitrary: m rule: string_of_nat.induct)
  case (1 n)
  show ?case
  proof (cases "n < 10")
    case nlt: True
    show ?thesis
    proof (cases "m < 10")
      case True
      with nlt "1.prems" show ?thesis
        by (simp add: string_of_nat.simps [of n] string_of_nat.simps [of m] digit_inj)
    next
      case False
      with nlt "1.prems" string_of_nat_nonempty [of "m div 10"] show ?thesis
        by (simp add: string_of_nat.simps [of n] string_of_nat.simps [of m] Cons_eq_append_conv)
    qed
  next
    case nge: False
    show ?thesis
    proof (cases "m < 10")
      case True
      with nge "1.prems" string_of_nat_nonempty [of "n div 10"] show ?thesis
        by (simp add: string_of_nat.simps [of n] string_of_nat.simps [of m] append_eq_Cons_conv)
    next
      case False
      with nge "1.prems" have a: "string_of_nat (n div 10) = string_of_nat (m div 10)"
        and b: "digit (n mod 10) = digit (m mod 10)"
        by (simp_all add: string_of_nat.simps [of n] string_of_nat.simps [of m])
      from "1.IH" [OF nge a] have "n div 10 = m div 10" .
      moreover from b have "n mod 10 = m mod 10" by (simp add: digit_inj)
      ultimately show ?thesis by (metis div_mult_mod_eq)
    qed
  qed
qed

section \<open>The registration loop\<close>

lemma freshIds_Suc:
  "freshIds pre idx (Suc n) = (pre @ string_of_nat (Suc idx)) # freshIds pre (Suc idx) n"
proof -
  have "[Suc idx ..< Suc idx + Suc n] = Suc idx # [Suc (Suc idx) ..< Suc (Suc idx) + n]"
    by (simp add: upt_rec [of "Suc idx"])
  then show ?thesis by (simp add: freshIds_def)
qed

lemma freshIds_length [simp]: "length (freshIds pre idx n) = n"
  by (simp add: freshIds_def)

lemma conditionsLoop_eq:
  "conditionsLoop pre (sheet, idx, m) cs =
     (sheet @ map2 ruleSet (map snd (registered cs)) (freshIds pre idx (length (registered cs))),
      idx + length (registered cs),
      m(map fst (registered cs) [\<mapsto>] freshIds pre idx (length (registered cs))))"
proof (induction cs arbitrary: sheet idx m)
  case Nil
  show ?case by (simp add: registered_def freshIds_def)
next
  case (Cons c cs)
  obtain name v where c: "c = (name, v)" by (cases c)
  show ?case
  proof (cases "v = []")
    case True
    with c Cons.IH [of sheet idx m] show ?thesis by (simp add: registered_def)
  next
    case False
    have reg: "registered ((name, v) # cs) = (name, v) # registered cs"
      using False by (simp add: registered_def)
    let ?ident = "pre @ string_of_nat (Suc idx)"
    have step: "conditionsLoop pre (sheet, idx, m) ((name, v) # cs) =
        conditionsLoop pre (sheet @ [ruleSet v ?ident], Suc idx, m(name \<mapsto> ?ident)) cs"
      using False by (simp add: getId_def ruleSet_def Let_def)
    show ?thesis
      unfolding c step Cons.IH [of "sheet @ [ruleSet v ?ident]" "Suc idx" "m(name \<mapsto> ?ident)"]
      by (simp add: reg freshIds_Suc)
  qed
qed

lemma defineConfig_registry:
  "snd (defineConfig options m) =
     m(map fst (registered (conditionList options))
        [\<mapsto>] freshIds (cssVarPrefixOf options) 0 (length (registered (conditionList options))))"
proof (cases "conditions options")
  case None
  then show ?thesis
    by (simp add: defineConfig_def conditionList_def registered_def Let_def)
next
  case (Some cs)
  then show ?thesis
    by (simp add: defineConfig_def conditionList_def conditionsLoop_eq Let_def)
qed

lemma map_upds_nth:
  "distinct xs \<Longrightarrow> length xs = length ys \<Longrightarrow> j < length xs \<Longrightarrow> (m(xs [\<mapsto>] ys)) (xs ! j) = Some (ys ! j)"
proof (induction xs arbitrary: m ys j)
  case Nil
  then show ?case by simp
next
  case (Cons x xs)
  then obtain y ys' where ys: "ys = y # ys'" by (cases ys) auto
  show ?case
  proof (cases j)
    case 0
    with Cons.prems ys show ?thesis by simp
  next
    case (Suc j')
    have "(m(x \<mapsto> y, xs [\<mapsto>] ys')) (xs ! j') = Some (ys' ! j')"
      by (rule Cons.IH) (use Cons.prems ys Suc in simp_all)
    then show ?thesis
      unfolding ys Suc by (simp only: map_upds_Cons nth_Cons_Suc)
  qed
qed

lemma map_upds_in_range:
  "length xs = length ys \<Longrightarrow> n \<in> set xs \<Longrightarrow> \<exists>y \<in> set ys. (m(xs [\<mapsto>] ys)) n = Some y"
proof (induction xs arbitrary: m ys)
  case Nil
  then show ?case by simp
next
  case (Cons x xs)
  then obtain y ys' where ys: "ys = y # ys'" by (cases ys) auto
  show ?case
  proof (cases "n \<in> set xs")
    case True
    have "\<exists>y' \<in> set ys'. (m(x \<mapsto> y, xs [\<mapsto>] ys')) n = Some y'"
      by (rule Cons.IH) (use Cons.prems ys True in simp_all)
    then obtain y' where "y' \<in> set ys'" and "(m(x \<mapsto> y, xs [\<mapsto>] ys')) n = Some y'"
      by blast
    then have "y' \<in> set ys" and "(m(x # xs [\<mapsto>] ys)) n = Some y'"
      unfolding ys by (simp_all only: map_upds_Cons list.set insert_iff simp_thms)
    then show ?thesis by blast
  next
    case False
    with Cons.prems ys show ?thesis by simp
  qed
qed

lemma freshIds_nth: "j < n \<Longrightarrow> freshIds pre idx n ! j = pre @ string_of_nat (Suc (idx + j))"
  by (simp add: freshIds_def del: upt_Suc)

lemma freshIds_nonempty: "i \<in> set (freshIds pre idx n) \<Longrightarrow> i \<noteq> []"
  by (auto simp: freshIds_def string_of_nat_nonempty)

lemma registered_distinct: "distinct (map fst cs) \<Longrightarrow> distinct (map fst (registered cs))"
  by (simp add: registered_def distinct_map_filter)

lemma registered_id:
  assumes "distinct (map fst (conditionList options))"
    and "j < length (registered (conditionList options))"
  shows "snd (defineConfig options m) (fst (registered (conditionList options) ! j)) =
    Some (cssVarPrefixOf options @ string_of_nat (Suc j))"
proof -
  let ?rs = "registered (conditionList options)"
  have "(m(map fst ?rs [\<mapsto>] freshIds (cssVarPrefixOf options) 0 (length ?rs))) (map fst ?rs ! j)
      = Some (freshIds (cssVarPrefixOf options) 0 (length ?rs) ! j)"
    using assms by (intro map_upds_nth) (simp_all add: registered_distinct)
  with assms(2) show ?thesis
    by (simp add: defineConfig_registry freshIds_nth)
qed

lemma style_defineConfig:
  "style (fst (defineConfig options m)) = processStyles (properties options)"
  by (simp add: defineConfig_def Let_def split: prod.splits)

lemma registry_grows: "m n \<noteq> None \<Longrightarrow> snd (defineConfig options m) n \<noteq> None"
proof -
  assume "m n \<noteq> None"
  then have "n \<in> dom m" by (simp add: domIff)
  then have "n \<in> dom (snd (defineConfig options m))"
    by (simp add: defineConfig_registry dom_map_upds)
  then show ?thesis by (simp add: domIff)
qed

lemma registered_nonempty_id:
  assumes "n \<in> set (map fst (registered (conditionList options)))"
  shows "\<exists>i. snd (defineConfig options m) n = Some i \<and> i \<noteq> []"
proof -
  let ?rs = "registered (conditionList options)"
  have "\<exists>y \<in> set (freshIds (cssVarPrefixOf options) 0 (length ?rs)).
      (m(map fst ?rs [\<mapsto>] freshIds (cssVarPrefixOf options) 0 (length ?rs))) n = Some y"
    using assms by (intro map_upds_in_range) simp_all
  then show ?thesis
    by (auto simp: defineConfig_registry dest: freshIds_nonempty)
qed

lemma kept_or_reregistered:
  assumes "m n = Some i" and "i \<noteq> []"
  shows "\<exists>i'. snd (defineConfig options m) n = Some i' \<and> i' \<noteq> []"
proof (cases "n \<in> set (map fst (registered (conditionList options)))")
  case True
  then show ?thesis by (rule registered_nonempty_id)
next
  case False
  then have "snd (defineConfig options m) n = m n"
    by (simp add: defineConfig_registry map_upds_apply_nontin)
  with assms show ?thesis by simp
qed

lemma hover_registry: "snd (defineConfig hoverOptions Map.empty) = [''hover'' \<mapsto> ''p1'']"
  by (simp add: defineConfig_def hoverOptions_def cssVarPrefixOf_def getId_def startsWith_def
      Let_def string_of_nat.simps digit_def)

section \<open>Property maps\<close>

lemma map_of_setProp: "map_of (setProp ps k v) = (map_of ps)(k \<mapsto> v)"
  by (induction ps) auto

lemma keys_setProp: "set (map fst (setProp ps k v)) = insert k (set (map fst ps))"
proof (induction ps)
  case Nil
  show ?case by simp
next
  case (Cons p ps)
  obtain k' v' where p: "p = (k', v')" by (cases p)
  show ?case
  proof (cases "k' = k")
    case True
    with p show ?thesis by simp
  next
    case False
    with p Cons.IH show ?thesis by (simp add: insert_commute)
  qed
qed

lemma distinct_setProp: "distinct (map fst ps) \<Longrightarrow> distinct (map fst (setProp ps k v))"
proof (induction ps)
  case Nil
  show ?case by simp
next
  case (Cons p ps)
  obtain k' v' where p: "p = (k', v')" by (cases p)
  show ?case
  proof (cases "k' = k")
    case True
    with Cons.prems p show ?thesis by simp
  next
    case False
    from Cons.prems p have "k' \<notin> set (map fst ps)" and "distinct (map fst ps)" by simp_all
    with False Cons.IH p keys_setProp [of ps k v] show ?thesis by simp
  qed
qed

lemma getProp_setProp: "getProp (setProp ps k v) k' = (if k' = k then v else getProp ps k')"
  by (simp add: getProp_def map_of_setProp)

lemma setProp_fresh: "k \<notin> set (map fst ps) \<Longrightarrow> setProp ps k v = ps @ [(k, v)]"
  by (induction ps) auto

lemma assignAll_fresh:
  "distinct (map fst (ps @ xs)) \<Longrightarrow> assignAll ps xs = ps @ xs"
proof (induction xs arbitrary: ps)
  case Nil
  show ?case by simp
next
  case (Cons x xs)
  obtain k v where x: "x = (k, v)" by (cases x)
  from Cons.prems x have fresh: "k \<notin> set (map fst ps)" by auto
  from Cons.prems x have "distinct (map fst ((ps @ [(k, v)]) @ xs))" by auto
  then have "assignAll (ps @ [(k, v)]) xs = (ps @ [(k, v)]) @ xs" by (rule Cons.IH)
  with fresh x show ?case by (simp add: setProp_fresh)
qed

lemma getProp_Cons: "getProp ((k0, v0) # ps) k = (if k = k0 then v0 else getProp ps k)"
  by (simp add: getProp_def)

lemma distinct_assignAll: "distinct (map fst ps) \<Longrightarrow> distinct (map fst (assignAll ps xs))"
  by (induction ps xs rule: assignAll.induct) (simp_all add: distinct_setProp)

lemma distinct_keyStep:
  "distinct (map fst (fst acc)) \<Longrightarrow> distinct (map fst (fst (keyStep props reg acc kv)))"
  by (cases acc; cases kv; cases "snd kv")
    (auto simp: distinct_setProp distinct_assignAll split: option.splits)

lemma distinct_baseLoop:
  "distinct (map fst (fst acc)) \<Longrightarrow> distinct (map fst (fst (baseLoop props reg acc n)))"
  by (induction n arbitrary: acc) (simp_all add: distinct_keyStep)

lemma distinct_applyCondition:
  "distinct (map fst ps) \<Longrightarrow> distinct (map fst (applyCondition i ps pv))"
  by (induction i ps pv rule: applyCondition.induct) (simp_all add: distinct_setProp)

lemma distinct_processStyles:
  "distinct (map fst (fst (processStyles props reg n)))"
  and distinct_forEachCondition:
  "distinct (map fst (fst acc)) \<Longrightarrow> distinct (map fst (fst (forEachCondition props reg cs acc)))"
proof (induction props reg n and props reg cs acc rule: processStyles_forEachCondition.induct)
  case (1 props reg styles)
  obtain ps cs out where b: "baseLoop props reg ([], [], []) styles = (ps, cs, out)"
    by (cases "baseLoop props reg ([], [], []) styles")
  have "distinct (map fst (fst (baseLoop props reg ([], [], []) styles)))"
    by (rule distinct_baseLoop) simp
  with b have "distinct (map fst ps)" by simp
  with 1 [of ps "(cs, out)" cs out] b show ?case
    by (simp add: processStyles.simps [of props reg styles])
next
  case (2 props reg acc)
  then show ?case by simp
next
  case (3 props reg c cs pStyles out)
  obtain pv d where p: "processStyles props reg (cvalue c) = (pv, d)"
    by (cases "processStyles props reg (cvalue c)")
  from "3.prems" have "distinct (map fst (applyCondition (cid c) pStyles pv))"
    by (simp add: distinct_applyCondition)
  with "3.IH"(2) [of pv d] p show ?case by simp
qed

lemma applyCondition_getProp:
  "distinct (map fst pv) \<Longrightarrow>
     getProp (applyCondition i ps pv) k =
       (if k \<in> set (map fst pv) then JStr (getPropertyValue i (getProp pv k) (getProp ps k))
        else getProp ps k)"
proof (induction pv arbitrary: ps)
  case Nil
  show ?case by simp
next
  case (Cons kv pv)
  obtain k0 v0 where kv: "kv = (k0, v0)" by (cases kv)
  from Cons.prems kv have fresh: "k0 \<notin> set (map fst pv)" and d: "distinct (map fst pv)"
    by simp_all
  let ?ps = "setProp ps k0 (JStr (getPropertyValue i v0 (getProp ps k0)))"
  have step: "getProp (applyCondition i ps (kv # pv)) k =
      (if k \<in> set (map fst pv) then JStr (getPropertyValue i (getProp pv k) (getProp ?ps k))
       else getProp ?ps k)"
    unfolding kv using Cons.IH [OF d, of ?ps] by simp
  show ?case
  proof (cases "k = k0")
    case True
    with fresh step show ?thesis
      unfolding kv by (simp add: getProp_setProp getProp_Cons)
  next
    case False
    with step show ?thesis
      unfolding kv by (simp add: getProp_setProp getProp_Cons)
  qed
qed

lemma applyCondition_untouched:
  "k \<notin> set (map fst pv) \<Longrightarrow> map_of (applyCondition i ps pv) k = map_of ps k"
  by (induction i ps pv rule: applyCondition.induct) (simp_all add: map_of_setProp)

section \<open>The two loops of processStyles\<close>

lemma baseLoop_append:
  "baseLoop props reg acc (xs @ ys) = baseLoop props reg (baseLoop props reg acc xs) ys"
  by (induction xs arbitrary: acc) simp_all

lemma keyStep_out:
  "keyStep props reg (ps, cs, out) kv =
     (case keyStep props reg (ps, cs, []) kv of (ps', cs', d) \<Rightarrow> (ps', cs', out @ d))"
  by (cases kv; cases "snd kv") (auto split: option.splits)

lemma baseLoop_out:
  "baseLoop props reg (ps, cs, out) n =
     (case baseLoop props reg (ps, cs, []) n of (ps', cs', d) \<Rightarrow> (ps', cs', out @ d))"
proof (induction n arbitrary: ps cs out)
  case Nil
  show ?case by simp
next
  case (Cons kv n)
  obtain ps1 cs1 d1 where s: "keyStep props reg (ps, cs, []) kv = (ps1, cs1, d1)"
    by (cases "keyStep props reg (ps, cs, []) kv")
  then have s': "keyStep props reg (ps, cs, out) kv = (ps1, cs1, out @ d1)"
    using keyStep_out [of props reg ps cs out kv] by simp
  obtain ps2 cs2 d2 where t: "baseLoop props reg (ps1, cs1, []) n = (ps2, cs2, d2)"
    by (cases "baseLoop props reg (ps1, cs1, []) n")
  have "baseLoop props reg (ps1, cs1, out @ d1) n = (ps2, cs2, (out @ d1) @ d2)"
    using Cons.IH [of ps1 cs1 "out @ d1"] t by simp
  moreover have "baseLoop props reg (ps1, cs1, d1) n = (ps2, cs2, d1 @ d2)"
    using Cons.IH [of ps1 cs1 d1] t by simp
  ultimately show ?case using s s' by simp
qed

lemma forEachCondition_out:
  "forEachCondition props reg cs (ps, out) =
     (case forEachCondition props reg cs (ps, []) of (ps', d) \<Rightarrow> (ps', out @ d))"
proof (induction cs arbitrary: ps out)
  case Nil
  show ?case by simp
next
  case (Cons c cs)
  obtain pv d1 where s: "processStyles props reg (cvalue c) = (pv, d1)"
    by (cases "processStyles props reg (cvalue c)")
  obtain ps2 d2 where t: "forEachCondition props reg cs (applyCondition (cid c) ps pv, []) = (ps2, d2)"
    by (cases "forEachCondition props reg cs (applyCondition (cid c) ps pv, [])")
  have "forEachCondition props reg cs (applyCondition (cid c) ps pv, out @ d1) = (ps2, (out @ d1) @ d2)"
    using Cons.IH [of "applyCondition (cid c) ps pv" "out @ d1"] t by simp
  moreover have "forEachCondition props reg cs (applyCondition (cid c) ps pv, d1) = (ps2, d1 @ d2)"
    using Cons.IH [of "applyCondition (cid c) ps pv" d1] t by simp
  ultimately show ?case using s by simp
qed

lemma forEachCondition_append:
  "forEachCondition props reg (cs @ cs') acc =
     forEachCondition props reg cs' (forEachCondition props reg cs acc)"
proof (induction cs arbitrary: acc)
  case Nil
  show ?case by simp
next
  case (Cons c cs)
  obtain ps out where acc: "acc = (ps, out)" by (cases acc)
  show ?case unfolding acc by (simp add: Cons.IH split: prod.splits)
qed

lemma keyStep_malformed:
  "reg k = Some i \<Longrightarrow> i \<noteq> [] \<Longrightarrow> \<forall>ob. v \<noteq> JObj ob \<Longrightarrow>
     keyStep props reg (ps, cs, out) (k, v) =
       (ps, cs, out @ [ConsoleWarn (k @ '' is defined as a condition and it must be passed on object''),
                       ConsoleLog ''Expected object, but received:'' v])"
  by (cases v) simp_all

lemma processStyles_malformed_condition:
  assumes "reg k = Some i" and "i \<noteq> []" and "\<forall>ob. v \<noteq> JObj ob"
  shows "\<exists>before after.
      processStyles props reg (xs @ (k, v) # ys) =
        (fst (processStyles props reg (xs @ ys)),
         before @ [ConsoleWarn (k @ '' is defined as a condition and it must be passed on object''),
                   ConsoleLog ''Expected object, but received:'' v] @ after)
    \<and> snd (processStyles props reg (xs @ ys)) = before @ after"
proof -
  let ?diag = "[ConsoleWarn (k @ '' is defined as a condition and it must be passed on object''),
                   ConsoleLog ''Expected object, but received:'' v]"
  obtain ps1 cs1 o1 where a: "baseLoop props reg ([], [], []) xs = (ps1, cs1, o1)"
    by (cases "baseLoop props reg ([], [], []) xs")
  obtain ps2 cs2 o2 where b: "baseLoop props reg (ps1, cs1, []) ys = (ps2, cs2, o2)"
    by (cases "baseLoop props reg (ps1, cs1, []) ys")
  obtain ps3 o3 where c: "forEachCondition props reg cs2 (ps2, []) = (ps3, o3)"
    by (cases "forEachCondition props reg cs2 (ps2, [])")
  have b1: "baseLoop props reg (ps1, cs1, o1 @ ?diag) ys = (ps2, cs2, (o1 @ ?diag) @ o2)"
    using baseLoop_out [of props reg ps1 cs1 "o1 @ ?diag" ys] b by simp
  have b2: "baseLoop props reg (ps1, cs1, o1) ys = (ps2, cs2, o1 @ o2)"
    using baseLoop_out [of props reg ps1 cs1 o1 ys] b by simp
  have c1: "forEachCondition props reg cs2 (ps2, (o1 @ ?diag) @ o2) = (ps3, ((o1 @ ?diag) @ o2) @ o3)"
    using forEachCondition_out [of props reg cs2 ps2 "(o1 @ ?diag) @ o2"] c by simp
  have c2: "forEachCondition props reg cs2 (ps2, o1 @ o2) = (ps3, (o1 @ o2) @ o3)"
    using forEachCondition_out [of props reg cs2 ps2 "o1 @ o2"] c by simp
  have full: "processStyles props reg (xs @ (k, v) # ys) = (ps3, o1 @ ?diag @ (o2 @ o3))"
    using a b1 c1 keyStep_malformed [where reg = reg and k = k and v = v, OF assms, of props ps1 cs1 o1]
    by (simp add: processStyles.simps [of props reg "xs @ (k, v) # ys"] baseLoop_append)
  have rest: "processStyles props reg (xs @ ys) = (ps3, o1 @ (o2 @ o3))"
    using a b2 c2
    by (simp add: processStyles.simps [of props reg "xs @ ys"] baseLoop_append)
  show ?thesis
    using full rest by (intro exI [of _ o1] exI [of _ "o2 @ o3"]) simp
qed

lemma keyStep_worklist:
  "keyStep props reg (ps, cs, out) kv =
     (case keyStep props reg (ps, [], []) kv of (ps', cs', d) \<Rightarrow> (ps', cs @ cs', out @ d))"
  by (cases kv; cases "snd kv") (auto split: option.splits)

lemma baseLoop_worklist:
  "baseLoop props reg (ps, cs, out) n =
     (case baseLoop props reg (ps, [], []) n of (ps', cs', d) \<Rightarrow> (ps', cs @ cs', out @ d))"
proof (induction n arbitrary: ps cs out)
  case Nil
  show ?case by simp
next
  case (Cons kv n)
  obtain ps1 cs1 d1 where s: "keyStep props reg (ps, [], []) kv = (ps1, cs1, d1)"
    by (cases "keyStep props reg (ps, [], []) kv")
  then have s': "keyStep props reg (ps, cs, out) kv = (ps1, cs @ cs1, out @ d1)"
    using keyStep_worklist [of props reg ps cs out kv] by simp
  obtain ps2 cs2 d2 where t: "baseLoop props reg (ps1, [], []) n = (ps2, cs2, d2)"
    by (cases "baseLoop props reg (ps1, [], []) n")
  have "baseLoop props reg (ps1, cs @ cs1, out @ d1) n = (ps2, (cs @ cs1) @ cs2, (out @ d1) @ d2)"
    using Cons.IH [of ps1 "cs @ cs1" "out @ d1"] t by simp
  moreover have "baseLoop props reg (ps1, cs1, d1) n = (ps2, cs1 @ cs2, d1 @ d2)"
    using Cons.IH [of ps1 cs1 d1] t by simp
  ultimately show ?case using s s' by simp
qed

lemma keyStep_worklist_entry:
  "c \<in> set (fst (snd (keyStep props reg (ps, [], []) (key, v)))) \<Longrightarrow>
     key = cname c \<and> v = JObj (cvalue c) \<and> reg (cname c) = Some (cid c) \<and> cid c \<noteq> []"
  by (cases v; cases "reg key") (auto split: if_splits option.splits)

lemma baseLoop_worklist_entry:
  "c \<in> set (fst (snd (baseLoop props reg (ps, [], []) n))) \<Longrightarrow>
     (cname c, JObj (cvalue c)) \<in> set n \<and> reg (cname c) = Some (cid c) \<and> cid c \<noteq> []"
proof (induction n arbitrary: ps)
  case Nil
  then show ?case by simp
next
  case (Cons kv n)
  obtain key v where kv: "kv = (key, v)" by (cases kv)
  obtain ps1 cs1 d1 where s: "keyStep props reg (ps, [], []) (key, v) = (ps1, cs1, d1)"
    by (cases "keyStep props reg (ps, [], []) (key, v)")
  obtain ps2 cs2 d2 where t: "baseLoop props reg (ps1, [], []) n = (ps2, cs2, d2)"
    by (cases "baseLoop props reg (ps1, [], []) n")
  have "baseLoop props reg (ps, [], []) (kv # n) = (ps2, cs1 @ cs2, d1 @ d2)"
    using baseLoop_worklist [of props reg ps1 cs1 d1 n] s t kv by simp
  with Cons.prems have "c \<in> set cs1 \<or> c \<in> set cs2" by simp
  then show ?case
  proof
    assume "c \<in> set cs1"
    with s have "c \<in> set (fst (snd (keyStep props reg (ps, [], []) (key, v))))" by simp
    from keyStep_worklist_entry [OF this] kv show ?thesis by simp
  next
    assume "c \<in> set cs2"
    with t have "c \<in> set (fst (snd (baseLoop props reg (ps1, [], []) n)))" by simp
    from Cons.IH [OF this] show ?thesis by simp
  qed
qed

lemma getProp_eq_map_of: "map_of ps k = map_of ps' k \<Longrightarrow> getProp ps k = getProp ps' k"
  by (simp add: getProp_def)

lemma forEachCondition_untouched:
  "\<forall>c \<in> set cs. k \<notin> set (map fst (fst (processStyles props reg (cvalue c)))) \<Longrightarrow>
     map_of (fst (forEachCondition props reg cs (ps, out))) k = map_of ps k"
proof (induction cs arbitrary: ps out)
  case Nil
  show ?case by simp
next
  case (Cons c cs)
  obtain pv d where p: "processStyles props reg (cvalue c) = (pv, d)"
    by (cases "processStyles props reg (cvalue c)")
  with Cons.prems have "k \<notin> set (map fst pv)" by simp
  then have "map_of (applyCondition (cid c) ps pv) k = map_of ps k"
    by (rule applyCondition_untouched)
  moreover have "map_of (fst (forEachCondition props reg cs (applyCondition (cid c) ps pv, out @ d))) k
      = map_of (applyCondition (cid c) ps pv) k"
    using Cons.prems by (intro Cons.IH) simp
  ultimately show ?case using p by simp
qed

lemma keys_applyCondition:
  "set (map fst (applyCondition i ps pv)) = set (map fst ps) \<union> set (map fst pv)"
proof (induction i ps pv rule: applyCondition.induct)
  case (1 i pStyles)
  show ?case by simp
next
  case (2 i pStyles k v processedValue)
  let ?ps = "setProp pStyles k (JStr (getPropertyValue i v (getProp pStyles k)))"
  have "set (map fst (applyCondition i pStyles ((k, v) # processedValue))) =
      set (map fst ?ps) \<union> set (map fst processedValue)"
    using "2.IH" by (simp only: applyCondition.simps)
  also have "set (map fst ?ps) = insert k (set (map fst pStyles))"
    by (rule keys_setProp)
  finally show ?case by (simp del: set_map)
qed

lemma applyCondition_map_of:
  assumes "distinct (map fst pv)" and "k \<in> set (map fst pv)"
  shows "map_of (applyCondition i ps pv) k = Some (JStr (getPropertyValue i (getProp pv k) (getProp ps k)))"
proof -
  have "k \<in> set (map fst (applyCondition i ps pv))"
    using assms(2) by (simp add: keys_applyCondition del: set_map)
  then obtain v where v: "map_of (applyCondition i ps pv) k = Some v"
    by (metis map_of_eq_None_iff not_Some_eq set_map)
  then have "getProp (applyCondition i ps pv) k = v" by (simp add: getProp_def)
  with assms v show ?thesis by (simp add: applyCondition_getProp)
qed

lemma forEachCondition_key_cong:
  "map_of ps k = map_of ps' k \<Longrightarrow>
     map_of (fst (forEachCondition props reg cs (ps, out))) k =
     map_of (fst (forEachCondition props reg cs (ps', out'))) k"
proof (induction cs arbitrary: ps ps' out out')
  case Nil
  then show ?case by simp
next
  case (Cons c cs)
  obtain pv d where p: "processStyles props reg (cvalue c) = (pv, d)"
    by (cases "processStyles props reg (cvalue c)")
  have dist: "distinct (map fst pv)"
    using distinct_processStyles [of props reg "cvalue c"] p by simp
  have "map_of (applyCondition (cid c) ps pv) k = map_of (applyCondition (cid c) ps' pv) k"
  proof (cases "k \<in> set (map fst pv)")
    case True
    with dist Cons.prems show ?thesis
      by (simp add: applyCondition_map_of getProp_eq_map_of [OF Cons.prems])
  next
    case False
    with Cons.prems show ?thesis by (simp add: applyCondition_untouched)
  qed
  then have "map_of (fst (forEachCondition props reg cs (applyCondition (cid c) ps pv, out @ d))) k =
      map_of (fst (forEachCondition props reg cs (applyCondition (cid c) ps' pv, out' @ d))) k"
    by (rule Cons.IH)
  with p show ?case by simp
qed

text \<open>The worklist of a node with a condition key, and of the node without it.\<close>

lemma baseLoop_condition_key:
  assumes "reg c = Some i" and "i \<noteq> []"
  obtains base cs1 cs2 out where
    "baseLoop props reg ([], [], []) (pre @ (c, JObj n) # post) =
       (base, cs1 @ \<lparr>cname = c, cid = i, cvalue = n\<rparr> # cs2, out)"
    and "baseLoop props reg ([], [], []) (pre @ post) = (base, cs1 @ cs2, out)"
    and "\<forall>c' \<in> set cs2. (cname c', JObj (cvalue c')) \<in> set post \<and> reg (cname c') = Some (cid c') \<and> cid c' \<noteq> []"
proof -
  obtain ps1 cs1 o1 where a: "baseLoop props reg ([], [], []) pre = (ps1, cs1, o1)"
    by (cases "baseLoop props reg ([], [], []) pre")
  obtain ps2 cs2 o2 where b: "baseLoop props reg (ps1, [], []) post = (ps2, cs2, o2)"
    by (cases "baseLoop props reg (ps1, [], []) post")
  let ?c = "\<lparr>cname = c, cid = i, cvalue = n\<rparr>"
  have "baseLoop props reg (ps1, cs1 @ [?c], o1) post = (ps2, (cs1 @ [?c]) @ cs2, o1 @ o2)"
    using baseLoop_worklist [of props reg ps1 "cs1 @ [?c]" o1 post] b by simp
  then have 1: "baseLoop props reg ([], [], []) (pre @ (c, JObj n) # post) = (ps2, cs1 @ ?c # cs2, o1 @ o2)"
    using a assms by (simp add: baseLoop_append)
  have "baseLoop props reg (ps1, cs1, o1) post = (ps2, cs1 @ cs2, o1 @ o2)"
    using baseLoop_worklist [of props reg ps1 cs1 o1 post] b by simp
  then have 2: "baseLoop props reg ([], [], []) (pre @ post) = (ps2, cs1 @ cs2, o1 @ o2)"
    using a by (simp add: baseLoop_append)
  have 3: "\<forall>c' \<in> set cs2. (cname c', JObj (cvalue c')) \<in> set post \<and> reg (cname c') = Some (cid c') \<and> cid c' \<noteq> []"
  proof
    fix c' assume "c' \<in> set cs2"
    with b have "c' \<in> set (fst (snd (baseLoop props reg (ps1, [], []) post)))" by simp
    then show "(cname c', JObj (cvalue c')) \<in> set post \<and> reg (cname c') = Some (cid c') \<and> cid c' \<noteq> []"
      by (rule baseLoop_worklist_entry)
  qed
  from 1 2 3 show ?thesis by (rule that)
qed

text \<open>
  The entry for \<open>k\<close> after a condition that sets \<open>k\<close>, when no later condition sets it;
  and the entries the condition does not set.
\<close>

lemma processStyles_condition_entry:
  assumes "reg c = Some i" and "i \<noteq> []"
    and "k \<in> set (map fst (fst (processStyles props reg n)))"
    and "\<forall>key m. (key, JObj m) \<in> set post \<and> reg key \<noteq> None \<and> reg key \<noteq> Some [] \<longrightarrow>
           k \<notin> set (map fst (fst (processStyles props reg m)))"
  shows "map_of (fst (processStyles props reg (pre @ (c, JObj n) # post))) k =
    Some (JStr (getPropertyValue i (getProp (fst (processStyles props reg n)) k)
      (getProp (fst (processStyles props reg (pre @ post))) k)))"
proof -
  let ?c = "\<lparr>cname = c, cid = i, cvalue = n\<rparr>"
  from assms(1,2) obtain base cs1 cs2 out where
    w: "baseLoop props reg ([], [], []) (pre @ (c, JObj n) # post) = (base, cs1 @ ?c # cs2, out)"
    and wo: "baseLoop props reg ([], [], []) (pre @ post) = (base, cs1 @ cs2, out)"
    and later: "\<forall>c' \<in> set cs2. (cname c', JObj (cvalue c')) \<in> set post \<and> reg (cname c') = Some (cid c') \<and> cid c' \<noteq> []"
    by (rule baseLoop_condition_key)
  have quiet: "\<forall>c' \<in> set cs2. k \<notin> set (map fst (fst (processStyles props reg (cvalue c'))))"
  proof
    fix c' assume "c' \<in> set cs2"
    with later have "(cname c', JObj (cvalue c')) \<in> set post" and "reg (cname c') = Some (cid c')"
      and "cid c' \<noteq> []" by simp_all
    with assms(4) show "k \<notin> set (map fst (fst (processStyles props reg (cvalue c'))))"
      by (metis option.distinct(1) option.inject)
  qed
  obtain s1 o1 where f1: "forEachCondition props reg cs1 (base, out) = (s1, o1)"
    by (cases "forEachCondition props reg cs1 (base, out)")
  obtain child d where ch: "processStyles props reg n = (child, d)"
    by (cases "processStyles props reg n")
  have dist: "distinct (map fst child)"
    using distinct_processStyles [of props reg n] ch by simp
  from assms(3) ch have kin: "k \<in> set (map fst child)" by simp
  have res: "fst (processStyles props reg (pre @ (c, JObj n) # post)) =
      fst (forEachCondition props reg cs2 (applyCondition i s1 child, o1 @ d))"
    using w f1 ch
    by (simp add: processStyles.simps [of props reg "pre @ (c, JObj n) # post"] forEachCondition_append)
  have par: "fst (processStyles props reg (pre @ post)) = fst (forEachCondition props reg cs2 (s1, o1))"
    using wo f1
    by (simp add: processStyles.simps [of props reg "pre @ post"] forEachCondition_append)
  have "map_of (fst (forEachCondition props reg cs2 (s1, o1))) k = map_of s1 k"
    using quiet by (rule forEachCondition_untouched)
  then have pk: "getProp (fst (processStyles props reg (pre @ post))) k = getProp s1 k"
    unfolding par by (rule getProp_eq_map_of)
  have "map_of (fst (forEachCondition props reg cs2 (applyCondition i s1 child, o1 @ d))) k =
      map_of (applyCondition i s1 child) k"
    using quiet by (rule forEachCondition_untouched)
  also have "\<dots> = Some (JStr (getPropertyValue i (getProp child k) (getProp s1 k)))"
    using dist kin by (rule applyCondition_map_of)
  finally show ?thesis unfolding res pk using ch by simp
qed

lemma processStyles_condition_other:
  assumes "reg c = Some i" and "i \<noteq> []"
    and "k \<notin> set (map fst (fst (processStyles props reg n)))"
  shows "map_of (fst (processStyles props reg (pre @ (c, JObj n) # post))) k =
    map_of (fst (processStyles props reg (pre @ post))) k"
proof -
  let ?c = "\<lparr>cname = c, cid = i, cvalue = n\<rparr>"
  from assms(1,2) obtain base cs1 cs2 out where
    w: "baseLoop props reg ([], [], []) (pre @ (c, JObj n) # post) = (base, cs1 @ ?c # cs2, out)"
    and wo: "baseLoop props reg ([], [], []) (pre @ post) = (base, cs1 @ cs2, out)"
    by (rule baseLoop_condition_key)
  obtain s1 o1 where f1: "forEachCondition props reg cs1 (base, out) = (s1, o1)"
    by (cases "forEachCondition props reg cs1 (base, out)")
  obtain child d where ch: "processStyles props reg n = (child, d)"
    by (cases "processStyles props reg n")
  from assms(3) ch have "k \<notin> set (map fst child)" by simp
  then have "map_of (applyCondition i s1 child) k = map_of s1 k"
    by (rule applyCondition_untouched)
  then have "map_of (fst (forEachCondition props reg cs2 (applyCondition i s1 child, o1 @ d))) k =
      map_of (fst (forEachCondition props reg cs2 (s1, o1))) k"
    by (rule forEachCondition_key_cong)
  moreover have "fst (processStyles props reg (pre @ (c, JObj n) # post)) =
      fst (forEachCondition props reg cs2 (applyCondition i s1 child, o1 @ d))"
    using w f1 ch
    by (simp add: processStyles.simps [of props reg "pre @ (c, JObj n) # post"] forEachCondition_append)
  moreover have "fst (processStyles props reg (pre @ post)) = fst (forEachCondition props reg cs2 (s1, o1))"
    using wo f1
    by (simp add: processStyles.simps [of props reg "pre @ post"] forEachCondition_append)
  ultimately show ?thesis by simp
qed

section \<open>Single condition keys\<close>

lemma condition_key_object:
  assumes "reg n = Some i" and "i \<noteq> []"
  shows "processStyles props reg [(n, JObj child)] =
    (case processStyles props reg child of (pv, out) \<Rightarrow> (applyCondition i [] pv, out))"
  using assms by (simp add: processStyles.simps [of props reg "[(n, JObj child)]"] split: prod.splits)

lemma condition_key_malformed:
  assumes "reg n = Some i" and "i \<noteq> []" and "\<forall>ob. v \<noteq> JObj ob"
  shows "processStyles props reg [(n, v)] =
    ([], [ConsoleWarn (n @ '' is defined as a condition and it must be passed on object''),
          ConsoleLog ''Expected object, but received:'' v])"
  using assms by (cases v) (simp_all add: processStyles.simps)

section \<open>Expanders of registered names\<close>

lemma keyStep_agree:
  assumes "(reg k = None \<or> reg k = Some []) \<longrightarrow> lookupFn p1 k = lookupFn p2 k"
  shows "keyStep p1 reg acc (k, v) = keyStep p2 reg acc (k, v)"
proof (cases acc)
  case (fields ps cs out)
  show ?thesis
    using assms unfolding fields by (cases "reg k") auto
qed

lemma baseLoop_agree:
  assumes "\<forall>k. (reg k = None \<or> reg k = Some []) \<longrightarrow> lookupFn p1 k = lookupFn p2 k"
  shows "baseLoop p1 reg acc n = baseLoop p2 reg acc n"
proof (induction n arbitrary: acc)
  case Nil
  show ?case by simp
next
  case (Cons kv n)
  obtain k v where kv: "kv = (k, v)" by (cases kv)
  have "keyStep p1 reg acc (k, v) = keyStep p2 reg acc (k, v)"
    using assms by (intro keyStep_agree) blast
  then show ?case unfolding kv by (simp add: Cons.IH)
qed

lemma processStyles_agree:
  "(\<forall>k. (reg k = None \<or> reg k = Some []) \<longrightarrow> lookupFn p1 k = lookupFn p2 k) \<Longrightarrow>
     processStyles p1 reg n = processStyles p2 reg n"
  and forEachCondition_agree:
  "(\<forall>k. (reg k = None \<or> reg k = Some []) \<longrightarrow> lookupFn p1 k = lookupFn p2 k) \<Longrightarrow>
     forEachCondition p1 reg cs acc = forEachCondition p2 reg cs acc"
proof (induction p1 reg n and p1 reg cs acc rule: processStyles_forEachCondition.induct)
  case (1 props reg styles)
  obtain ps cs out where b: "baseLoop props reg ([], [], []) styles = (ps, cs, out)"
    by (cases "baseLoop props reg ([], [], []) styles")
  then have b': "baseLoop p2 reg ([], [], []) styles = (ps, cs, out)"
    using baseLoop_agree [OF "1.prems", of "([], [], [])" styles] by simp
  have "forEachCondition props reg cs (ps, out) = forEachCondition p2 reg cs (ps, out)"
    using "1.IH" [of ps "(cs, out)" cs out] b "1.prems" by simp
  with b b' show ?case
    by (simp add: processStyles.simps [of props reg styles] processStyles.simps [of p2 reg styles])
next
  case (2 props reg acc)
  show ?case by simp
next
  case (3 props reg c cs pStyles out)
  obtain pv d where p: "processStyles props reg (cvalue c) = (pv, d)"
    by (cases "processStyles props reg (cvalue c)")
  have p': "processStyles p2 reg (cvalue c) = (pv, d)"
    using "3.IH"(1) [OF "3.prems"] p by simp
  from "3.IH"(2) [of pv d, OF _ "3.prems"] p p' show ?case by simp
qed

section \<open>Properties of the resolver\<close>

text \<open>
  C1. End-to-end scenario: with \<open>conditions = { hover: "&:hover" }\<close>, the shorthand
  \<open>p: (v) => ({ padding: v * 4 + "px" })\<close> and the default variable prefix, configured in
  a process whose registry is still empty, the style function maps
  \<open>{ p: 2, hover: { p: 4 } }\<close> to the single entry
  \<open>padding: "var(--p1-1,16px) var(--p1-0,8px)"\<close>: the pair of the \<open>hover\<close> condition, with
  \<open>16px\<close> in the active branch and \<open>8px\<close> in the inactive one. Nothing is logged.
\<close>

theorem scenario_hover_padding:
  "(case defineConfig hoverOptions Map.empty of
      (cfg, conditionIdMap) \<Rightarrow>
        style cfg conditionIdMap [(''p'', JNum 2), (''hover'', JObj [(''p'', JNum 4)])])
   = ([(''padding'', JStr ''var(--p1-1,16px) var(--p1-0,8px)'')], [])"
  by (simp add: defineConfig_def hoverOptions_def cssVarPrefixOf_def getId_def startsWith_def
      paddingExpander_def lookupFn_def getPropertyValue_def getProp_def string_of_int_def
      string_of_nat.simps digit_def Let_def processStyles.simps)

text \<open>
  C8. Expansion: for a key that is a shorthand with expander \<open>f\<close> and not a registered
  condition, resolving \<open>{ k: v }\<close> gives exactly the declarations of the object \<open>f v\<close>, in
  its order, and logs nothing. (An object has each of its keys once.)
\<close>

theorem expansion_registered_shorthand:
  assumes "conditionIdMap k = None" and "lookupFn (properties options) k = Some f"
    and "distinct (map fst (f v))"
  shows "style (fst (defineConfig options m)) conditionIdMap [(k, v)] = (f v, [])"
  using assms assignAll_fresh [of "[]" "f v"] by (simp add: style_defineConfig processStyles.simps)

theorem expansion_registered_shorthand_witness:
  "snd (defineConfig hoverOptions Map.empty) ''p'' = None
   \<and> lookupFn (properties hoverOptions) ''p'' = Some paddingExpander
   \<and> distinct (map fst (paddingExpander (JNum 3)))
   \<and> style (fst (defineConfig hoverOptions Map.empty)) (snd (defineConfig hoverOptions Map.empty))
        [(''p'', JNum 3)]
      = ([(''padding'', JStr ''12px'')], [])"
proof -
  have a: "snd (defineConfig hoverOptions Map.empty) ''p'' = None"
    by (simp add: hover_registry)
  have b: "lookupFn (properties hoverOptions) ''p'' = Some paddingExpander"
    by (simp add: hoverOptions_def lookupFn_def)
  have v: "paddingExpander (JNum 3) = [(''padding'', JStr ''12px'')]"
    by (simp add: paddingExpander_def string_of_int_def string_of_nat.simps digit_def)
  have c: "distinct (map fst (paddingExpander (JNum 3)))"
    by (simp add: v)
  from a b c show ?thesis
    using expansion_registered_shorthand [where conditionIdMap = "snd (defineConfig hoverOptions Map.empty)"
        and k = "''p''" and f = paddingExpander and v = "JNum 3", OF a b c] by (simp add: v)
qed

text \<open>
  C9. A name that is both a registered condition and a shorthand is a condition: for every
  node, at every depth, the result with the expander \<open>f\<close> under that name is the result
  without any expander under it, so \<open>f\<close> is never consulted. Alone in a node with an
  object, the key is resolved as a condition; with anything else it is dropped with the
  two diagnostics.
\<close>

theorem condition_wins_over_shorthand:
  assumes "reg k = Some i" and "i \<noteq> []"
  shows "processStyles (Some (p(k \<mapsto> f))) reg node = processStyles (Some (p(k := None))) reg node
    \<and> processStyles (Some (p(k \<mapsto> f))) reg [(k, JObj child)] =
        (case processStyles (Some (p(k \<mapsto> f))) reg child of
           (pv, out) \<Rightarrow> (applyCondition i [] pv, out))
    \<and> ((\<forall>ob. v \<noteq> JObj ob) \<longrightarrow>
        processStyles (Some (p(k \<mapsto> f))) reg [(k, v)] =
          ([], [ConsoleWarn (k @ '' is defined as a condition and it must be passed on object''),
                ConsoleLog ''Expected object, but received:'' v]))"
proof -
  have "\<forall>key. (reg key = None \<or> reg key = Some []) \<longrightarrow>
      lookupFn (Some (p(k \<mapsto> f))) key = lookupFn (Some (p(k := None))) key"
    using assms by (auto simp: lookupFn_def)
  then have "processStyles (Some (p(k \<mapsto> f))) reg node = processStyles (Some (p(k := None))) reg node"
    by (rule processStyles_agree)
  then show ?thesis
    using assms by (simp add: condition_key_object condition_key_malformed)
qed

theorem condition_wins_over_shorthand_witness:
  "[''hover'' \<mapsto> ''p1''] ''hover'' = Some ''p1'' \<and> ''p1'' \<noteq> []
   \<and> processStyles (Some [''hover'' \<mapsto> paddingExpander]) [''hover'' \<mapsto> ''p1'']
       [(''hover'', JNum 2)] =
     ([], [ConsoleWarn ''hover is defined as a condition and it must be passed on object'',
           ConsoleLog ''Expected object, but received:'' (JNum 2)])
   \<and> processStyles (Some [''hover'' \<mapsto> paddingExpander]) [''hover'' \<mapsto> ''p1'']
       [(''p'', JNum 2), (''hover'', JObj [(''hover'', JNum 4)])] =
     processStyles (Some (Map.empty(''hover'' := None))) [''hover'' \<mapsto> ''p1'']
       [(''p'', JNum 2), (''hover'', JObj [(''hover'', JNum 4)])]"
proof -
  have a: "[''hover'' \<mapsto> ''p1''] ''hover'' = Some ''p1''" by simp
  have b: "''p1'' \<noteq> []" by simp
  note t = condition_wins_over_shorthand [where reg = "[''hover'' \<mapsto> ''p1'']" and k = "''hover''",
      OF a b, of Map.empty paddingExpander "[(''p'', JNum 2), (''hover'', JObj [(''hover'', JNum 4)])]"
      "[]" "JNum 2"]
  from a b t show ?thesis by simp
qed

text \<open>
  C5. A registered condition key whose value is not an object is dropped: the map
  resolved from the node is the map resolved from the node without that key, and the
  console receives the warning naming the key and the log line with the received value,
  in between the lines the other keys cause with or without it. \<open>processStyles\<close> has no
  \<open>throw\<close> on this path and the model no error result: it returns for every node.
\<close>

theorem malformed_condition_dropped:
  assumes "reg k = Some i" and "i \<noteq> []" and "\<forall>ob. v \<noteq> JObj ob"
  shows "fst (processStyles props reg (xs @ (k, v) # ys)) = fst (processStyles props reg (xs @ ys))
    \<and> (\<exists>before after.
          snd (processStyles props reg (xs @ (k, v) # ys)) =
            before @ [ConsoleWarn (k @ '' is defined as a condition and it must be passed on object''),
                      ConsoleLog ''Expected object, but received:'' v] @ after
        \<and> snd (processStyles props reg (xs @ ys)) = before @ after)"
proof -
  from processStyles_malformed_condition [where reg = reg and k = k and v = v, OF assms, of props xs ys]
  obtain before after where
    "processStyles props reg (xs @ (k, v) # ys) =
        (fst (processStyles props reg (xs @ ys)),
         before @ [ConsoleWarn (k @ '' is defined as a condition and it must be passed on object''),
                   ConsoleLog ''Expected object, but received:'' v] @ after)"
    and "snd (processStyles props reg (xs @ ys)) = before @ after"
    by blast
  then show ?thesis by auto
qed

theorem malformed_condition_dropped_witness:
  "[''hover'' \<mapsto> ''p1''] ''hover'' = Some ''p1'' \<and> ''p1'' \<noteq> [] \<and> (\<forall>ob. JStr ''red'' \<noteq> JObj ob)
   \<and> fst (processStyles (Some [''p'' \<mapsto> paddingExpander]) [''hover'' \<mapsto> ''p1'']
       [(''p'', JNum 2), (''hover'', JStr ''red''), (''color'', JStr ''blue'')]) =
     [(''padding'', JStr ''8px''), (''color'', JStr ''blue'')]
   \<and> snd (processStyles (Some [''p'' \<mapsto> paddingExpander]) [''hover'' \<mapsto> ''p1'']
       [(''p'', JNum 2), (''hover'', JStr ''red''), (''color'', JStr ''blue'')]) =
      [ConsoleWarn ''hover is defined as a condition and it must be passed on object'',
       ConsoleLog ''Expected object, but received:'' (JStr ''red'')]"
proof -
  have a: "[''hover'' \<mapsto> ''p1''] ''hover'' = Some ''p1''" by simp
  have b: "''p1'' \<noteq> []" by simp
  have c: "\<forall>ob. JStr ''red'' \<noteq> JObj ob" by simp
  have rest: "processStyles (Some [''p'' \<mapsto> paddingExpander]) [''hover'' \<mapsto> ''p1'']
       ([(''p'', JNum 2)] @ [(''color'', JStr ''blue'')]) =
     ([(''padding'', JStr ''8px''), (''color'', JStr ''blue'')], [])"
    by (simp add: processStyles.simps lookupFn_def paddingExpander_def string_of_int_def
        string_of_nat.simps digit_def)
  note t = malformed_condition_dropped [where reg = "[''hover'' \<mapsto> ''p1'']" and k = "''hover''"
      and v = "JStr ''red''", OF a b c, of "Some [''p'' \<mapsto> paddingExpander]" "[(''p'', JNum 2)]"
      "[(''color'', JStr ''blue'')]", unfolded rest]
  from a b c t show ?thesis by simp
qed

text \<open>
  C2. Last processed wins. Let \<open>condA\<close> come before \<open>condB\<close> in a node, both registered and
  given objects whose resolutions both have the property \<open>k\<close>, and let no registered key
  after \<open>condA\<close> other than \<open>condB\<close> have an object that resolves \<open>k\<close>. Then the entry
  for \<open>k\<close> is the pair of \<open>condB\<close> with \<open>condB\<close>'s value in its active branch and, in
  its inactive branch, the pair of \<open>condA\<close> built over what the rest of the node gives
  for \<open>k\<close>. While \<open>condB\<close> is active its inactive variable is empty, so the value of
  \<open>condB\<close> is the one in force whether or not \<open>condA\<close> is active too.
\<close>

theorem later_condition_outermost:
  assumes "reg condA = Some a" and "a \<noteq> []" and "reg condB = Some b" and "b \<noteq> []"
    and "k \<in> set (map fst (fst (processStyles props reg nA)))"
    and "k \<in> set (map fst (fst (processStyles props reg nB)))"
    and "\<forall>key m. (key, JObj m) \<in> set (mid @ post) \<and> reg key \<noteq> None \<and> reg key \<noteq> Some [] \<longrightarrow>
           k \<notin> set (map fst (fst (processStyles props reg m)))"
  shows "map_of (fst (processStyles props reg
            (pre @ (condA, JObj nA) # mid @ (condB, JObj nB) # post))) k =
         Some (JStr (getPropertyValue b (getProp (fst (processStyles props reg nB)) k)
           (JStr (getPropertyValue a (getProp (fst (processStyles props reg nA)) k)
              (getProp (fst (processStyles props reg (pre @ mid @ post))) k)))))"
proof -
  from assms(7) have post: "\<forall>key m. (key, JObj m) \<in> set post \<and> reg key \<noteq> None \<and> reg key \<noteq> Some [] \<longrightarrow>
           k \<notin> set (map fst (fst (processStyles props reg m)))"
    by auto
  have "map_of (fst (processStyles props reg ((pre @ (condA, JObj nA) # mid) @ (condB, JObj nB) # post))) k =
      Some (JStr (getPropertyValue b (getProp (fst (processStyles props reg nB)) k)
        (getProp (fst (processStyles props reg ((pre @ (condA, JObj nA) # mid) @ post))) k)))"
    using assms(3,4,6) post by (rule processStyles_condition_entry)
  moreover have "map_of (fst (processStyles props reg (pre @ (condA, JObj nA) # (mid @ post)))) k =
      Some (JStr (getPropertyValue a (getProp (fst (processStyles props reg nA)) k)
        (getProp (fst (processStyles props reg (pre @ (mid @ post)))) k)))"
    using assms(1,2,5,7) by (rule processStyles_condition_entry)
  then have "getProp (fst (processStyles props reg (pre @ (condA, JObj nA) # mid @ post))) k =
      JStr (getPropertyValue a (getProp (fst (processStyles props reg nA)) k)
        (getProp (fst (processStyles props reg (pre @ mid @ post))) k))"
    by (simp add: getProp_def)
  ultimately show ?thesis by simp
qed

theorem later_condition_outermost_witness:
  "[''condA'' \<mapsto> ''p1'', ''condB'' \<mapsto> ''p2'', ''condC'' \<mapsto> ''p3''] ''condA'' = Some ''p1'' \<and> ''p1'' \<noteq> []
   \<and> [''condA'' \<mapsto> ''p1'', ''condB'' \<mapsto> ''p2'', ''condC'' \<mapsto> ''p3''] ''condB'' = Some ''p2'' \<and> ''p2'' \<noteq> []
   \<and> ''color'' \<in> set (map fst (fst (processStyles None
          [''condA'' \<mapsto> ''p1'', ''condB'' \<mapsto> ''p2'', ''condC'' \<mapsto> ''p3''] [(''color'', JStr ''x'')])))
   \<and> ''color'' \<in> set (map fst (fst (processStyles None
          [''condA'' \<mapsto> ''p1'', ''condB'' \<mapsto> ''p2'', ''condC'' \<mapsto> ''p3''] [(''color'', JStr ''y'')])))
   \<and> ''color'' \<notin> set (map fst (fst (processStyles None
          [''condA'' \<mapsto> ''p1'', ''condB'' \<mapsto> ''p2'', ''condC'' \<mapsto> ''p3''] [(''margin'', JStr ''1px'')])))
   \<and> map_of (fst (processStyles None [''condA'' \<mapsto> ''p1'', ''condB'' \<mapsto> ''p2'', ''condC'' \<mapsto> ''p3'']
       [(''color'', JStr ''base''), (''condA'', JObj [(''color'', JStr ''x'')]),
        (''condB'', JObj [(''color'', JStr ''y'')]),
        (''condC'', JObj [(''margin'', JStr ''1px'')])])) ''color''
      = Some (JStr ''var(--p2-1,y) var(--p2-0,var(--p1-1,x) var(--p1-0,base))'')"
proof -
  let ?reg = "[''condA'' \<mapsto> ''p1'', ''condB'' \<mapsto> ''p2'', ''condC'' \<mapsto> ''p3'']"
  have a: "?reg ''condA'' = Some ''p1''" and a': "''p1'' \<noteq> []"
    and b: "?reg ''condB'' = Some ''p2''" and b': "''p2'' \<noteq> []"
    by simp_all
  have cx: "processStyles None ?reg [(''color'', JStr ''x'')] = ([(''color'', JStr ''x'')], [])"
    and cy: "processStyles None ?reg [(''color'', JStr ''y'')] = ([(''color'', JStr ''y'')], [])"
    and cm: "processStyles None ?reg [(''margin'', JStr ''1px'')] = ([(''margin'', JStr ''1px'')], [])"
    by (simp_all add: processStyles.simps lookupFn_def)
  have cb: "map_of (fst (processStyles None ?reg
      ([(''color'', JStr ''base'')] @ [] @ [(''condC'', JObj [(''margin'', JStr ''1px'')])]))) ''color''
      = Some (JStr ''base'')"
    by (simp add: processStyles.simps lookupFn_def getPropertyValue_def getProp_def)
  have kx: "''color'' \<in> set (map fst (fst (processStyles None ?reg [(''color'', JStr ''x'')])))"
    and ky: "''color'' \<in> set (map fst (fst (processStyles None ?reg [(''color'', JStr ''y'')])))"
    and km: "''color'' \<notin> set (map fst (fst (processStyles None ?reg [(''margin'', JStr ''1px'')])))"
    by (simp_all add: cx cy cm)
  have later: "\<forall>key m. (key, JObj m) \<in> set ([] @ [(''condC'', JObj [(''margin'', JStr ''1px'')])])
        \<and> ?reg key \<noteq> None \<and> ?reg key \<noteq> Some [] \<longrightarrow>
          ''color'' \<notin> set (map fst (fst (processStyles None ?reg m)))"
    using km by simp
  note t = later_condition_outermost [where reg = ?reg and condA = "''condA''" and condB = "''condB''"
      and k = "''color''" and pre = "[(''color'', JStr ''base'')]" and mid = "[]"
      and post = "[(''condC'', JObj [(''margin'', JStr ''1px'')])]", OF a a' b b' kx ky later]
  have gb: "getProp (fst (processStyles None ?reg
      ([(''color'', JStr ''base'')] @ [] @ [(''condC'', JObj [(''margin'', JStr ''1px'')])]))) ''color''
      = JStr ''base''"
    using cb by (simp add: getProp_def)
  from a a' b b' kx ky km t show ?thesis
    unfolding gb cx cy by (simp add: getPropertyValue_def getProp_def)
qed

text \<open>
  C4, as stated, fails twice. With two sibling conditions on \<open>color\<close>, the inactive branch
  of the second one is the first one's rewrite, not the value \<open>base\<close> of the base pass.
  And with \<open>opacity: 0\<close> in the base pass the parent has a prior value, yet \<open>off || ...\<close>
  takes the number \<open>0\<close> for absent and the inactive branch is \<open>revert-layer\<close>.
\<close>

theorem base_pass_value_counterexample:
  "fst (style (fst (defineConfig readmeOptions Map.empty)) (snd (defineConfig readmeOptions Map.empty))
       [(''color'', JStr ''base''), (''hover'', JObj [(''color'', JStr ''x'')]),
        (''md'', JObj [(''color'', JStr ''y'')])])
     = [(''color'', JStr ''var(--p2-1,y) var(--p2-0,var(--p1-1,x) var(--p1-0,base))'')]
   \<and> fst (style (fst (defineConfig readmeOptions Map.empty)) (snd (defineConfig readmeOptions Map.empty))
       [(''color'', JStr ''base''), (''hover'', JObj [(''color'', JStr ''x'')]),
        (''md'', JObj [(''color'', JStr ''y'')])])
     \<noteq> [(''color'', JStr ''var(--p2-1,y) var(--p2-0,base)'')]
   \<and> fst (style (fst (defineConfig readmeOptions Map.empty)) (snd (defineConfig readmeOptions Map.empty))
       [(''color'', JStr ''base'')])
     = [(''color'', JStr ''base'')]
   \<and> fst (style (fst (defineConfig readmeOptions Map.empty)) (snd (defineConfig readmeOptions Map.empty))
       [(''opacity'', JNum 0), (''hover'', JObj [(''opacity'', JNum 1)])])
     = [(''opacity'', JStr ''var(--p1-1,1) var(--p1-0,revert-layer)'')]
   \<and> fst (style (fst (defineConfig readmeOptions Map.empty)) (snd (defineConfig readmeOptions Map.empty))
       [(''opacity'', JNum 0)])
     = [(''opacity'', JNum 0)]"
  by (simp add: defineConfig_def readmeOptions_def cssVarPrefixOf_def getId_def startsWith_def
      Let_def string_of_nat.simps digit_def processStyles.simps lookupFn_def
      getPropertyValue_def getProp_def string_of_int_def)

text \<open>
  C4, amended. Let \<open>c\<close> be a registered key of a node, with the object \<open>n\<close>; the child
  map is what \<open>n\<close> resolves to, the parent map what the node without \<open>c\<close> resolves to.
  For every property of the child map that no later condition of the node sets, the
  parent map holds the entry of the moment \<open>c\<close> is processed (the base-pass value,
  wrapped by the conditions before \<open>c\<close>), and the entry of the result is the fallback
  expression of \<open>c\<close>'s id with the child's value in the active branch and, in the
  inactive branch, \<open>revert-layer\<close> when the parent map has no entry for the property,
  the parent's entry when it has a truthy one. Properties outside the child map resolve
  as in the node without \<open>c\<close>.
\<close>

theorem condition_rewrites_parent_entry:
  assumes "reg c = Some i" and "i \<noteq> []"
  shows "(let parent = fst (processStyles props reg (pre @ post));
              child = fst (processStyles props reg n);
              result = fst (processStyles props reg (pre @ (c, JObj n) # post))
          in (\<forall>k \<in> set (map fst child).
                (\<forall>key m. (key, JObj m) \<in> set post \<and> reg key \<noteq> None \<and> reg key \<noteq> Some [] \<longrightarrow>
                   k \<notin> set (map fst (fst (processStyles props reg m)))) \<longrightarrow>
                (map_of parent k = None \<longrightarrow>
                   map_of result k =
                     Some (JStr (''var(--'' @ i @ ''-1,'' @ toString (getProp child k) @
                                 '') var(--'' @ i @ ''-0,revert-layer)'')))
              \<and> (\<forall>old. map_of parent k = Some old \<and> truthy old \<longrightarrow>
                   map_of result k =
                     Some (JStr (''var(--'' @ i @ ''-1,'' @ toString (getProp child k) @
                                 '') var(--'' @ i @ ''-0,'' @ toString old @ '')''))))
           \<and> (\<forall>k. k \<notin> set (map fst child) \<longrightarrow> map_of result k = map_of parent k))"
proof -
  let ?parent = "fst (processStyles props reg (pre @ post))"
  let ?child = "fst (processStyles props reg n)"
  let ?result = "fst (processStyles props reg (pre @ (c, JObj n) # post))"
  have touched: "map_of ?result k =
      Some (JStr (getPropertyValue i (getProp ?child k) (getProp ?parent k)))"
    if "k \<in> set (map fst ?child)"
      and "\<forall>key m. (key, JObj m) \<in> set post \<and> reg key \<noteq> None \<and> reg key \<noteq> Some [] \<longrightarrow>
             k \<notin> set (map fst (fst (processStyles props reg m)))" for k
    using assms that by (rule processStyles_condition_entry)
  have other: "map_of ?result k = map_of ?parent k" if "k \<notin> set (map fst ?child)" for k
    using assms that by (rule processStyles_condition_other)
  have absent: "getPropertyValue i on (getProp ?parent k) =
      ''var(--'' @ i @ ''-1,'' @ toString on @ '') var(--'' @ i @ ''-0,revert-layer)''"
    if "map_of ?parent k = None" for k on
    using that by (simp add: getPropertyValue_def getProp_def)
  have present: "getPropertyValue i on (getProp ?parent k) =
      ''var(--'' @ i @ ''-1,'' @ toString on @ '') var(--'' @ i @ ''-0,'' @ toString old @ '')''"
    if "map_of ?parent k = Some old" and "truthy old" for k on old
    using that by (simp add: getPropertyValue_def getProp_def)
  show ?thesis
    unfolding Let_def
  proof (intro conjI ballI allI impI)
    fix k
    assume "k \<in> set (map fst ?child)"
      and "\<forall>key m. (key, JObj m) \<in> set post \<and> reg key \<noteq> None \<and> reg key \<noteq> Some [] \<longrightarrow>
             k \<notin> set (map fst (fst (processStyles props reg m)))"
      and "map_of ?parent k = None"
    then show "map_of ?result k =
        Some (JStr (''var(--'' @ i @ ''-1,'' @ toString (getProp ?child k) @
                    '') var(--'' @ i @ ''-0,revert-layer)''))"
      by (simp add: touched absent)
  next
    fix k old
    assume "k \<in> set (map fst ?child)"
      and "\<forall>key m. (key, JObj m) \<in> set post \<and> reg key \<noteq> None \<and> reg key \<noteq> Some [] \<longrightarrow>
             k \<notin> set (map fst (fst (processStyles props reg m)))"
      and "map_of ?parent k = Some old \<and> truthy old"
    then show "map_of ?result k =
        Some (JStr (''var(--'' @ i @ ''-1,'' @ toString (getProp ?child k) @
                    '') var(--'' @ i @ ''-0,'' @ toString old @ '')''))"
      by (simp add: touched present)
  next
    fix k
    assume "k \<notin> set (map fst ?child)"
    then show "map_of ?result k = map_of ?parent k" by (rule other)
  qed
qed

theorem condition_rewrites_parent_entry_witness:
  "[''hover'' \<mapsto> ''p1'', ''md'' \<mapsto> ''p2''] ''hover'' = Some ''p1'' \<and> ''p1'' \<noteq> []
   \<and> ''padding'' \<notin> set (map fst (fst (processStyles (Some [''p'' \<mapsto> paddingExpander])
          [''hover'' \<mapsto> ''p1'', ''md'' \<mapsto> ''p2''] [(''color'', JStr ''blue'')])))
   \<and> ''width'' \<notin> set (map fst (fst (processStyles (Some [''p'' \<mapsto> paddingExpander])
          [''hover'' \<mapsto> ''p1'', ''md'' \<mapsto> ''p2''] [(''color'', JStr ''blue'')])))
   \<and> map_of (fst (processStyles (Some [''p'' \<mapsto> paddingExpander]) [''hover'' \<mapsto> ''p1'', ''md'' \<mapsto> ''p2'']
         [(''p'', JNum 2),
          (''hover'', JObj [(''p'', JNum 4), (''color'', JStr ''red''), (''width'', JStr ''10px'')]),
          (''margin'', JStr ''1px''), (''md'', JObj [(''color'', JStr ''blue'')])])) ''padding''
       = Some (JStr ''var(--p1-1,16px) var(--p1-0,8px)'')
   \<and> map_of (fst (processStyles (Some [''p'' \<mapsto> paddingExpander]) [''hover'' \<mapsto> ''p1'', ''md'' \<mapsto> ''p2'']
         [(''p'', JNum 2),
          (''hover'', JObj [(''p'', JNum 4), (''color'', JStr ''red''), (''width'', JStr ''10px'')]),
          (''margin'', JStr ''1px''), (''md'', JObj [(''color'', JStr ''blue'')])])) ''width''
       = Some (JStr ''var(--p1-1,10px) var(--p1-0,revert-layer)'')
   \<and> map_of (fst (processStyles (Some [''p'' \<mapsto> paddingExpander]) [''hover'' \<mapsto> ''p1'', ''md'' \<mapsto> ''p2'']
         [(''p'', JNum 2),
          (''hover'', JObj [(''p'', JNum 4), (''color'', JStr ''red''), (''width'', JStr ''10px'')]),
          (''margin'', JStr ''1px''), (''md'', JObj [(''color'', JStr ''blue'')])])) ''margin''
       = Some (JStr ''1px'')"
proof -
  let ?reg = "[''hover'' \<mapsto> ''p1'', ''md'' \<mapsto> ''p2'']"
  let ?props = "Some [''p'' \<mapsto> paddingExpander]"
  let ?post = "[(''margin'', JStr ''1px''), (''md'', JObj [(''color'', JStr ''blue'')])]"
  have a: "?reg ''hover'' = Some ''p1''" and b: "''p1'' \<noteq> []"
    by simp_all
  have later: "processStyles ?props ?reg [(''color'', JStr ''blue'')] = ([(''color'', JStr ''blue'')], [])"
    by (simp add: processStyles.simps lookupFn_def)
  have q1: "''padding'' \<notin> set (map fst (fst (processStyles ?props ?reg [(''color'', JStr ''blue'')])))"
    and q2: "''width'' \<notin> set (map fst (fst (processStyles ?props ?reg [(''color'', JStr ''blue'')])))"
    by (simp_all add: later)
  have parent: "fst (processStyles ?props ?reg ([(''p'', JNum 2)] @ ?post)) =
      [(''padding'', JStr ''8px''), (''margin'', JStr ''1px''),
       (''color'', JStr ''var(--p2-1,blue) var(--p2-0,revert-layer)'')]"
    by (simp add: processStyles.simps lookupFn_def paddingExpander_def string_of_int_def
        string_of_nat.simps digit_def getPropertyValue_def getProp_def)
  have child: "fst (processStyles ?props ?reg
        [(''p'', JNum 4), (''color'', JStr ''red''), (''width'', JStr ''10px'')]) =
      [(''padding'', JStr ''16px''), (''color'', JStr ''red''), (''width'', JStr ''10px'')]"
    by (simp add: processStyles.simps lookupFn_def paddingExpander_def string_of_int_def
        string_of_nat.simps digit_def)
  note t = condition_rewrites_parent_entry [where reg = ?reg and c = "''hover''" and i = "''p1''"
      and post = ?post and pre = "[(''p'', JNum 2)]" and props = ?props
      and n = "[(''p'', JNum 4), (''color'', JStr ''red''), (''width'', JStr ''10px'')]",
      OF a b, unfolded Let_def parent child]
  have quiet: "\<forall>key m. (key, JObj m) \<in> set ?post \<and> ?reg key \<noteq> None \<and> ?reg key \<noteq> Some [] \<longrightarrow>
      k \<notin> set (map fst (fst (processStyles ?props ?reg m)))"
    if "k \<notin> set (map fst (fst (processStyles ?props ?reg [(''color'', JStr ''blue'')])))" for k
    using that by simp
  from t quiet [OF q1] have pad: "map_of (fst (processStyles ?props ?reg
         ([(''p'', JNum 2)] @
          (''hover'', JObj [(''p'', JNum 4), (''color'', JStr ''red''), (''width'', JStr ''10px'')]) # ?post)))
        ''padding'' = Some (JStr ''var(--p1-1,16px) var(--p1-0,8px)'')"
    by (simp add: getProp_def)
  from t quiet [OF q2] have wid: "map_of (fst (processStyles ?props ?reg
         ([(''p'', JNum 2)] @
          (''hover'', JObj [(''p'', JNum 4), (''color'', JStr ''red''), (''width'', JStr ''10px'')]) # ?post)))
        ''width'' = Some (JStr ''var(--p1-1,10px) var(--p1-0,revert-layer)'')"
    by (simp add: getProp_def)
  from t have mar: "map_of (fst (processStyles ?props ?reg
         ([(''p'', JNum 2)] @
          (''hover'', JObj [(''p'', JNum 4), (''color'', JStr ''red''), (''width'', JStr ''10px'')]) # ?post)))
        ''margin'' = Some (JStr ''1px'')"
    by simp
  from a b q1 q2 pad wid mar show ?thesis by simp
qed

section \<open>Properties of defineConfig\<close>

text \<open>
  C6. For the one selector condition \<open>"&:hover, &:focus"\<close> the stylesheet is the default
  rule \<open>*{--p1-0:initial;--p1-1: ;}\<close> and the override rule that flips both variables, but
  the selector of the override rule is \<open>*:hover, &:focus\<close>: \<open>selector.replace('&', '*')\<close>
  has a string for its pattern and replaces the first \<open>&\<close> only, so the second \<open>&\<close> is
  left in the stylesheet. With every \<open>&\<close> replaced by the universal selector, as the
  documentation of \<open>conditions\<close> has it ("Use \<open>&\<close> to refer to current element"), the
  selector would be \<open>*:hover, *:focus\<close>.
\<close>

theorem selector_second_ampersand_kept:
  "stylesheet (fst (defineConfig groupedOptions Map.empty)) =
     ''*{--p1-0:initial;--p1-1: ;} *:hover, &:focus{--p1-0: ;--p1-1:initial;}''
   \<and> stylesheet (fst (defineConfig groupedOptions Map.empty)) \<noteq>
     ''*{--p1-0:initial;--p1-1: ;} *:hover, *:focus{--p1-0: ;--p1-1:initial;}''"
  by (simp add: defineConfig_def groupedOptions_def cssVarPrefixOf_def getId_def startsWith_def
      Let_def string_of_nat.simps digit_def getSelectorStylesheet_def)

text \<open>
  C3, as stated, fails: ids are not unique across the configurations of a process. After
  \<open>defineConfig({ conditions: { hover: "&:hover" } })\<close> and then
  \<open>defineConfig({ conditions: { focus: "&:focus" } })\<close> the registry maps both \<open>hover\<close> and
  \<open>focus\<close> to \<open>p1\<close>, and the second stylesheet toggles \<open>--p1-0\<close>, \<open>--p1-1\<close> again:
  \<open>idx\<close> is a local of each call, so the second call numbers from 1.
\<close>

theorem shared_sequence_counterexample:
  "snd (defineConfig focusOptions (snd (defineConfig hoverOptions Map.empty))) ''hover'' = Some ''p1''
   \<and> snd (defineConfig focusOptions (snd (defineConfig hoverOptions Map.empty))) ''focus'' = Some ''p1''
   \<and> stylesheet (fst (defineConfig focusOptions (snd (defineConfig hoverOptions Map.empty))))
       = ''*{--p1-0:initial;--p1-1: ;} *:focus{--p1-0: ;--p1-1:initial;}''"
  by (simp add: defineConfig_def focusOptions_def hoverOptions_def cssVarPrefixOf_def getId_def
      startsWith_def Let_def string_of_nat.simps digit_def getSelectorStylesheet_def)


text \<open>
  C3, amended. Within one \<open>defineConfig\<close> call, whatever the registry held before, the
  \<open>j\<close>-th condition the call registers receives the id \<open>prefix j\<close> (counting from 1), so
  two different conditions of the same call receive different ids.
\<close>

theorem ids_distinct_within_call:
  assumes "distinct (map fst (conditionList options))"
  shows "(\<forall>j < length (registered (conditionList options)).
            snd (defineConfig options m) (fst (registered (conditionList options) ! j))
              = Some (cssVarPrefixOf options @ string_of_nat (Suc j)))
       \<and> (\<forall>j < length (registered (conditionList options)).
          \<forall>j' < length (registered (conditionList options)).
            j \<noteq> j' \<longrightarrow>
              snd (defineConfig options m) (fst (registered (conditionList options) ! j))
                \<noteq> snd (defineConfig options m) (fst (registered (conditionList options) ! j')))"
  using assms by (auto simp: registered_id dest: string_of_nat_inj)

theorem ids_distinct_within_call_witness:
  "distinct (map fst (conditionList readmeOptions))
   \<and> snd (defineConfig readmeOptions Map.empty) ''hover'' = Some ''p1''
   \<and> snd (defineConfig readmeOptions Map.empty) ''md'' = Some ''p2''
   \<and> snd (defineConfig readmeOptions Map.empty) ''dark'' = Some ''p3''
   \<and> snd (defineConfig readmeOptions Map.empty) ''hover'' \<noteq> snd (defineConfig readmeOptions Map.empty) ''dark''"
proof -
  have d: "distinct (map fst (conditionList readmeOptions))"
    by (simp add: readmeOptions_def conditionList_def)
  have r: "registered (conditionList readmeOptions) =
      [(''hover'', ''&:hover''), (''md'', ''@media (min-width: 768px)''), (''dark'', ''.dark &'')]"
    by (simp add: readmeOptions_def conditionList_def registered_def)
  have p: "cssVarPrefixOf readmeOptions = ''p''"
    by (simp add: readmeOptions_def cssVarPrefixOf_def)
  note t = ids_distinct_within_call [OF d, of Map.empty, unfolded r p]
  from t have "snd (defineConfig readmeOptions Map.empty) (fst ([(''hover'', ''&:hover''), (''md'', ''@media (min-width: 768px)''), (''dark'', ''.dark &'')] ! 0)) = Some (''p'' @ string_of_nat (Suc 0))"
    by (metis length_Cons zero_less_Suc)
  then have h: "snd (defineConfig readmeOptions Map.empty) ''hover'' = Some ''p1''"
    by (simp add: string_of_nat.simps digit_def)
  from t have "snd (defineConfig readmeOptions Map.empty) (fst ([(''hover'', ''&:hover''), (''md'', ''@media (min-width: 768px)''), (''dark'', ''.dark &'')] ! 1)) = Some (''p'' @ string_of_nat (Suc 1))"
    by (metis One_nat_def length_Cons Suc_less_eq zero_less_Suc)
  then have md: "snd (defineConfig readmeOptions Map.empty) ''md'' = Some ''p2''"
    by (simp add: string_of_nat.simps digit_def)
  from t have "snd (defineConfig readmeOptions Map.empty) (fst ([(''hover'', ''&:hover''), (''md'', ''@media (min-width: 768px)''), (''dark'', ''.dark &'')] ! 2)) = Some (''p'' @ string_of_nat (Suc 2))"
    by (metis numeral_2_eq_2 length_Cons Suc_less_eq zero_less_Suc)
  then have dk: "snd (defineConfig readmeOptions Map.empty) ''dark'' = Some ''p3''"
    by (simp add: string_of_nat.simps digit_def)
  from d h md dk show ?thesis by simp
qed


text \<open>
  C10. Nothing removes an entry of the registry: a name it maps stays mapped through every
  later \<open>defineConfig\<close>. So after a second configuration, every name the first one
  registered is still a condition key for the second one's style function: given an
  object, the key is resolved as a condition under the id then in the registry; given
  anything else, it is dropped with the two diagnostics. A name the second configuration
  registers again is mapped to the second configuration's id for it.
\<close>

theorem registry_survives_later_config:
  "(let m1 = snd (defineConfig options1 m0);
        m2 = snd (defineConfig options2 m1);
        cfg2 = fst (defineConfig options2 m1)
    in (\<forall>n. m0 n \<noteq> None \<longrightarrow> m1 n \<noteq> None) \<and> (\<forall>n. m1 n \<noteq> None \<longrightarrow> m2 n \<noteq> None)
     \<and> (\<forall>n \<in> set (map fst (registered (conditionList options1))).
          \<exists>i. m2 n = Some i \<and> i \<noteq> [] \<and>
            (\<forall>child. style cfg2 m2 [(n, JObj child)] =
               (case style cfg2 m2 child of (pv, out) \<Rightarrow> (applyCondition i [] pv, out))) \<and>
            (\<forall>v. (\<forall>ob. v \<noteq> JObj ob) \<longrightarrow>
               style cfg2 m2 [(n, v)] =
                 ([], [ConsoleWarn (n @ '' is defined as a condition and it must be passed on object''),
                       ConsoleLog ''Expected object, but received:'' v])))
     \<and> (distinct (map fst (conditionList options2)) \<longrightarrow>
          (\<forall>j < length (registered (conditionList options2)).
             m2 (fst (registered (conditionList options2) ! j))
               = Some (cssVarPrefixOf options2 @ string_of_nat (Suc j)))))"
proof -
  define m1 where "m1 = snd (defineConfig options1 m0)"
  define m2 where "m2 = snd (defineConfig options2 m1)"
  define cfg2 where "cfg2 = fst (defineConfig options2 m1)"
  have grow1: "\<forall>n. m0 n \<noteq> None \<longrightarrow> m1 n \<noteq> None"
    unfolding m1_def by (simp add: registry_grows)
  have grow2: "\<forall>n. m1 n \<noteq> None \<longrightarrow> m2 n \<noteq> None"
    unfolding m2_def by (simp add: registry_grows)
  have seen: "\<exists>i. m2 n = Some i \<and> i \<noteq> [] \<and>
            (\<forall>child. style cfg2 m2 [(n, JObj child)] =
               (case style cfg2 m2 child of (pv, out) \<Rightarrow> (applyCondition i [] pv, out))) \<and>
            (\<forall>v. (\<forall>ob. v \<noteq> JObj ob) \<longrightarrow>
               style cfg2 m2 [(n, v)] =
                 ([], [ConsoleWarn (n @ '' is defined as a condition and it must be passed on object''),
                       ConsoleLog ''Expected object, but received:'' v]))"
    if "n \<in> set (map fst (registered (conditionList options1)))" for n
  proof -
    from that obtain i1 where "m1 n = Some i1" and "i1 \<noteq> []"
      unfolding m1_def using registered_nonempty_id by blast
    then obtain i where i: "m2 n = Some i" "i \<noteq> []"
      unfolding m2_def using kept_or_reregistered by blast
    have st: "style cfg2 = processStyles (properties options2)"
      unfolding cfg2_def by (rule style_defineConfig)
    show ?thesis
      using i unfolding st by (simp add: condition_key_object condition_key_malformed)
  qed
  have later: "m2 (fst (registered (conditionList options2) ! j))
               = Some (cssVarPrefixOf options2 @ string_of_nat (Suc j))"
    if "distinct (map fst (conditionList options2))"
      and "j < length (registered (conditionList options2))" for j
    unfolding m2_def using that by (rule registered_id)
  from grow1 grow2 seen later show ?thesis
    unfolding m1_def m2_def cfg2_def Let_def by blast
qed

theorem registry_survives_later_config_witness:
  "''md'' \<in> set (map fst (registered (conditionList readmeOptions)))
   \<and> distinct (map fst (conditionList laterOptions))
   \<and> snd (defineConfig readmeOptions Map.empty) ''hover'' = Some ''p1''
   \<and> snd (defineConfig laterOptions (snd (defineConfig readmeOptions Map.empty))) ''hover'' = Some ''p2''
   \<and> snd (defineConfig laterOptions (snd (defineConfig readmeOptions Map.empty))) ''md'' = Some ''p2''
   \<and> style (fst (defineConfig laterOptions (snd (defineConfig readmeOptions Map.empty))))
        (snd (defineConfig laterOptions (snd (defineConfig readmeOptions Map.empty))))
        [(''md'', JObj [(''color'', JStr ''red'')])]
      = ([(''color'', JStr ''var(--p2-1,red) var(--p2-0,revert-layer)'')], [])"
proof -
  let ?m1 = "snd (defineConfig readmeOptions Map.empty)"
  let ?m2 = "snd (defineConfig laterOptions ?m1)"
  let ?cfg2 = "fst (defineConfig laterOptions ?m1)"
  note t = registry_survives_later_config [of readmeOptions Map.empty laterOptions, unfolded Let_def]
  have r1: "registered (conditionList readmeOptions) =
      [(''hover'', ''&:hover''), (''md'', ''@media (min-width: 768px)''), (''dark'', ''.dark &'')]"
    by (simp add: readmeOptions_def conditionList_def registered_def)
  have r2: "registered (conditionList laterOptions) = [(''focus'', ''&:focus''), (''hover'', ''.hoverable &'')]"
    by (simp add: laterOptions_def conditionList_def registered_def)
  have p2: "cssVarPrefixOf laterOptions = ''p''"
    by (simp add: laterOptions_def cssVarPrefixOf_def)
  have a: "''md'' \<in> set (map fst (registered (conditionList readmeOptions)))"
    by (simp add: r1)
  have d: "distinct (map fst (conditionList laterOptions))"
    by (simp add: laterOptions_def conditionList_def)
  have h1: "?m1 ''hover'' = Some ''p1''"
    by (simp add: defineConfig_def readmeOptions_def cssVarPrefixOf_def getId_def
        startsWith_def Let_def string_of_nat.simps digit_def)
  from t d have "\<forall>j < length (registered (conditionList laterOptions)).
      ?m2 (fst (registered (conditionList laterOptions) ! j)) =
        Some (cssVarPrefixOf laterOptions @ string_of_nat (Suc j))"
    by blast
  moreover have "1 < length (registered (conditionList laterOptions))"
    by (simp add: r2)
  ultimately have "?m2 (fst (registered (conditionList laterOptions) ! 1)) =
        Some (cssVarPrefixOf laterOptions @ string_of_nat (Suc 1))"
    by blast
  then have h2: "?m2 ''hover'' = Some ''p2''"
    unfolding r2 p2 by (simp add: string_of_nat.simps digit_def)
  from t a obtain i where i: "?m2 ''md'' = Some i"
    and obj: "\<forall>child. style ?cfg2 ?m2 [(''md'', JObj child)] =
        (case style ?cfg2 ?m2 child of (pv, out) \<Rightarrow> (applyCondition i [] pv, out))"
    by blast
  have m2: "?m2 = [''hover'' \<mapsto> ''p1'', ''md'' \<mapsto> ''p2'', ''dark'' \<mapsto> ''p3'',
      ''focus'' \<mapsto> ''p1'', ''hover'' \<mapsto> ''p2'']"
    by (simp add: defineConfig_def readmeOptions_def laterOptions_def cssVarPrefixOf_def getId_def
        startsWith_def Let_def string_of_nat.simps digit_def)
  from i have i2: "i = ''p2''" unfolding m2 by simp
  have st: "style ?cfg2 = processStyles None"
    by (simp add: style_defineConfig laterOptions_def)
  have leaf: "style ?cfg2 ?m2 [(''color'', JStr ''red'')] = ([(''color'', JStr ''red'')], [])"
    unfolding st m2 by (simp add: processStyles.simps lookupFn_def)
  from obj have "style ?cfg2 ?m2 [(''md'', JObj [(''color'', JStr ''red'')])] =
      (case style ?cfg2 ?m2 [(''color'', JStr ''red'')] of (pv, out) \<Rightarrow> (applyCondition i [] pv, out))"
    by blast
  then have res: "style ?cfg2 ?m2 [(''md'', JObj [(''color'', JStr ''red'')])] =
      ([(''color'', JStr ''var(--p2-1,red) var(--p2-0,revert-layer)'')], [])"
    by (simp add: leaf i2 getPropertyValue_def getProp_def)
  from a d h1 h2 i i2 res show ?thesis by simp
qed

end
